theory Spec2Isabelle
  imports Complex_Main "HOL-Library.Word" "HOL-Library.Sublist" "HOL-Library.Log_Nat"
begin

section \<open>Errors\<close>

text \<open>
  The Python exceptions the modelled functions raise. A \<open>ValueError\<close> carries the
  message that tells the raise sites apart; every fallible function returns
  \<open>py_error + 'a\<close> with \<open>Inl\<close> for the raised exception.
\<close>

datatype message =
    DivisibleBy64 nat nat
  | UnexpectedLatentsShape "nat list" "nat list"
  | PromptType
  | NotEnoughValuesToUnpack
  | TooManyValuesToUnpack
  | UnevenSplit
  | CannotReshape
  | CannotConcatenate
  | CouldNotBroadcast
  | AxesDontMatch
  | NegativeSamples
  | ResizeSize

datatype py_error =
    ValueError message
  | AssertionError
  | IndexError
  | ZeroDivisionError

section \<open>Application shell: \<open>app.py\<close>\<close>

text \<open>
  Python values, as far as the modelled code tells them apart by type.
  \<open>on_huggingspace\<close> is either the string read from the environment or \<open>False\<close>; the
  two \<open>if on_huggingspace:\<close> tests use Python truthiness, under which the empty string
  is false.
\<close>

datatype pyval = PyStr string | PyBool bool | PyInt int | PyNone | PyList "pyval list"







section \<open>Arrays\<close>

text \<open>
  A numpy or jax array is its shape and its elements in row-major order. It is
  well formed when the number of elements is the product of the shape.
\<close>

record 'a ndarray =
  shape :: "nat list"
  data :: "'a list"

definition wf_ndarray :: "'a ndarray \<Rightarrow> bool" where
  "wf_ndarray x = (length (data x) = prod_list (shape x))"

definition nd_map :: "('a \<Rightarrow> 'b) \<Rightarrow> 'a ndarray \<Rightarrow> 'b ndarray" where
  "nd_map f x = \<lparr>shape = shape x, data = map f (data x)\<rparr>"

text \<open>Elementwise operation on two arrays of the same shape.\<close>

definition nd_map2 :: "('a \<Rightarrow> 'b \<Rightarrow> 'c) \<Rightarrow> 'a ndarray \<Rightarrow> 'b ndarray \<Rightarrow> 'c ndarray" where
  "nd_map2 f x y = \<lparr>shape = shape x, data = map2 f (data x) (data y)\<rparr>"

text \<open>
  \<open>jnp.concatenate([x, y])\<close> joins along axis 0; it raises for a zero-dimensional
  operand and for operands whose other axes differ.
\<close>

definition concatenate :: "'a ndarray \<Rightarrow> 'a ndarray \<Rightarrow> py_error + 'a ndarray" where
  "concatenate x y =
     (case (shape x, shape y) of
        (n # xs, m # ys) \<Rightarrow>
          if xs = ys then Inr \<lparr>shape = (n + m) # xs, data = data x @ data y\<rparr>
          else Inl (ValueError CannotConcatenate)
      | _ \<Rightarrow> Inl (ValueError CannotConcatenate))"

text \<open>
  \<open>jnp.split(x, 2, axis=0)\<close> cuts the leading axis into two equal halves and raises
  when its length is odd.
\<close>

definition jnp_split2 :: "'a ndarray \<Rightarrow> py_error + 'a ndarray \<times> 'a ndarray" where
  "jnp_split2 x =
     (case shape x of
        [] \<Rightarrow> Inl IndexError
      | n # rest \<Rightarrow>
          if n mod 2 \<noteq> 0 then Inl (ValueError UnevenSplit)
          else let k = (n div 2) * prod_list rest
               in Inr (\<lparr>shape = (n div 2) # rest, data = take k (data x)\<rparr>,
                       \<lparr>shape = (n div 2) # rest, data = drop k (data x)\<rparr>))"


text \<open>\<open>x.transpose(0, 2, 3, 1)\<close> of a four-dimensional array.\<close>

definition transpose_0231 :: "'a ndarray \<Rightarrow> py_error + 'a ndarray" where
  "transpose_0231 x =
     (case shape x of
        [n, c, h, w] \<Rightarrow>
          Inr \<lparr>shape = [n, h, w, c],
               data = concat (map (\<lambda>i. concat (map (\<lambda>r. concat (map (\<lambda>q.
                        map (\<lambda>k. data x ! (((i * c + k) * h + r) * w + q)) [0..<c])
                        [0..<w])) [0..<h])) [0..<n])\<rparr>
      | _ \<Rightarrow> Inl (ValueError AxesDontMatch))"



section \<open>The ControlNet pipeline: \<open>custom_pipeline.py\<close>\<close>

subsection \<open>External components\<close>

text \<open>
  The tokenizer, the text encoder, the denoiser, the ControlNet, the scheduler, the
  VAE, the safety checker and the random generator are library code. The pipeline
  object and its \<open>params\<close> dictionary are a record of the functions the pipeline
  calls, with the weights already applied. The element type \<open>'a\<close> of the float
  arrays is left open: the theorems hold for whatever its arithmetic is.
  \<open>timestep_at st step\<close> is \<open>jnp.array(st.timesteps, dtype=jnp.int32)[step]\<close>;
  \<open>to_uint8\<close> is the elementwise \<open>(x * 255).round().astype("uint8")\<close> and
  \<open>of_uint8\<close> the conversion numpy applies when a uint8 value is stored into a
  float array. The safety checker stands for the feature extractor followed by the
  classifier and returns one flag per image.
\<close>

record tokenizer_kwargs =
  kw_padding :: string
  kw_max_length :: nat
  kw_truncation :: bool
  kw_return_tensors :: string

record ('a, 's, 'r, 'k) models =
  tokenizer :: "pyval \<Rightarrow> tokenizer_kwargs \<Rightarrow> int ndarray"
  model_max_length :: nat
  text_encoder :: "int ndarray \<Rightarrow> 'a ndarray"
  shard :: "'a ndarray \<Rightarrow> 'a ndarray"
  unet_in_channels :: nat
  vae_block_out_channels :: "nat list"
  vae_scaling_factor :: 'a
  vae_decode :: "'a ndarray \<Rightarrow> 'a ndarray"
  random_normal :: "'k \<Rightarrow> nat list \<Rightarrow> 'a ndarray"
  set_timesteps :: "int \<Rightarrow> nat list \<Rightarrow> 's"
  init_noise_sigma :: 'a
  timestep_at :: "'s \<Rightarrow> int \<Rightarrow> int"
  scale_model_input :: "'s \<Rightarrow> 'a ndarray \<Rightarrow> int \<Rightarrow> 'a ndarray"
  controlnet_apply :: "'a ndarray \<Rightarrow> int ndarray \<Rightarrow> 'a ndarray \<Rightarrow> 'a ndarray \<Rightarrow> 'a \<Rightarrow> 'r"
  unet_apply :: "'a ndarray \<Rightarrow> int ndarray \<Rightarrow> 'a ndarray \<Rightarrow> 'r \<Rightarrow> 'a ndarray"
  scheduler_step :: "'s \<Rightarrow> 'a ndarray \<Rightarrow> int \<Rightarrow> 'a ndarray \<Rightarrow> 'a ndarray \<times> 's"
  safety_checker :: "(8 word ndarray \<Rightarrow> bool list) option"
  to_uint8 :: "'a \<Rightarrow> 8 word"
  of_uint8 :: "8 word \<Rightarrow> 'a"

text \<open>\<open>self.vae_scale_factor\<close>, set in \<open>__init__\<close>; the VAE has at least one block.\<close>

definition vae_scale_factor :: "('a, 's, 'r, 'k) models \<Rightarrow> nat" where
  "vae_scale_factor m = 2 ^ (length (vae_block_out_channels m) - 1)"

subsection \<open>\<open>prepare_text_inputs\<close>\<close>

definition prepare_text_inputs :: "('a, 's, 'r, 'k) models \<Rightarrow> pyval \<Rightarrow> py_error + int ndarray" where
  "prepare_text_inputs m prompt =
     (let text_input = tokenizer m prompt
            \<lparr>kw_padding = ''max_length'', kw_max_length = model_max_length m,
             kw_truncation = True, kw_return_tensors = ''np''\<rparr>
      in case prompt of
           PyStr _ \<Rightarrow> Inr text_input
         | PyList _ \<Rightarrow> Inr text_input
         | _ \<Rightarrow> Inl (ValueError PromptType))"

subsection \<open>\<open>_run_safety_checker\<close>\<close>



subsection \<open>\<open>_generate\<close>\<close>

text \<open>
  The first part of \<open>loop_body\<close>, up to the call of the denoiser: the doubled
  latents, the timestep, the scheduler's scaling, the ControlNet and the UNet. The
  result is the doubled-batch \<open>noise_pred\<close> and the timestep \<open>t\<close>.
\<close>

definition denoiser_output ::
  "('a, 's, 'r, 'k) models \<Rightarrow> 'a ndarray \<Rightarrow> 'a ndarray \<Rightarrow> 'a \<Rightarrow> int \<Rightarrow> 'a ndarray \<Rightarrow> 's
     \<Rightarrow> py_error + 'a ndarray \<times> int" where
  "denoiser_output m context cond_image controlnet_conditioning_scale step latents
       scheduler_state =
     (case concatenate latents latents of
        Inl e \<Rightarrow> Inl e
      | Inr latents_input \<Rightarrow>
          (let t = timestep_at m scheduler_state step;
               timestep = \<lparr>shape = [hd (shape latents_input)],
                           data = replicate (hd (shape latents_input)) t\<rparr>;
               latents_input = scale_model_input m scheduler_state latents_input t;
               res_samples = controlnet_apply m latents_input timestep context cond_image
                               controlnet_conditioning_scale;
               noise_pred = unet_apply m latents_input timestep context res_samples
           in Inr (noise_pred, t)))"

definition loop_body ::
  "('a::{plus,minus,times}, 's, 'r, 'k) models \<Rightarrow> 'a ndarray \<Rightarrow> 'a ndarray \<Rightarrow> 'a \<Rightarrow> 'a
     \<Rightarrow> int \<Rightarrow> 'a ndarray \<times> 's \<Rightarrow> py_error + 'a ndarray \<times> 's" where
  "loop_body m context cond_image guidance_scale controlnet_conditioning_scale step args =
     (case args of (latents, scheduler_state) \<Rightarrow>
        (case denoiser_output m context cond_image controlnet_conditioning_scale step latents
                scheduler_state of
           Inl e \<Rightarrow> Inl e
         | Inr (noise_pred, t) \<Rightarrow>
             (case jnp_split2 noise_pred of
                Inl e \<Rightarrow> Inl e
              | Inr (noise_pred_uncond, noise_prediction_text) \<Rightarrow>
                  (let noise_pred =
                         nd_map2 (+) noise_pred_uncond
                           (nd_map (\<lambda>x. guidance_scale * x)
                              (nd_map2 (-) noise_prediction_text noise_pred_uncond))
                   in Inr (scheduler_step m scheduler_state noise_pred t latents)))))"

text \<open>
  The conditioning image is \<open>cond_image\<close> in the model (\<open>image\<close> in the source, a
  name HOL uses for the image of a set).
  The Python loop \<open>for i in range(n): carry = body(i, carry)\<close> of the debug path:
\<close>

fun for_loop :: "int list \<Rightarrow> (int \<Rightarrow> 'c \<Rightarrow> py_error + 'c) \<Rightarrow> 'c \<Rightarrow> py_error + 'c" where
  "for_loop [] body carry = Inr carry"
| "for_loop (i # rest) body carry =
     (case body i carry of Inl e \<Rightarrow> Inl e | Inr carry' \<Rightarrow> for_loop rest body carry')"

text \<open>
  \<open>jax.lax.fori_loop(lower, upper, body_fun, init_val)\<close>, a library function, by the
  semantics its documentation gives: a counter runs from \<open>lower\<close> while it is below
  \<open>upper\<close>, and the body is applied to the counter and the carried value.
\<close>

function fori_loop ::
  "int \<Rightarrow> int \<Rightarrow> (int \<Rightarrow> 'c \<Rightarrow> py_error + 'c) \<Rightarrow> 'c \<Rightarrow> py_error + 'c" where
  "fori_loop lower upper body_fun val =
     (if lower < upper
      then (case body_fun lower val of
              Inl e \<Rightarrow> Inl e
            | Inr val' \<Rightarrow> fori_loop (lower + 1) upper body_fun val')
      else Inr val)"
  by pat_completeness auto
termination
  by (relation "measure (\<lambda>(lower, upper, body_fun, val). nat (upper - lower))") auto

declare fori_loop.simps [simp del]

text \<open>
  The module constant \<open>DEBUG\<close> selects the loop. It is \<open>False\<close> in the source; the
  model takes it as the argument \<open>dbg\<close> so that the two settings can be compared.
\<close>

definition DEBUG :: bool where
  "DEBUG = False"

definition denoise ::
  "bool \<Rightarrow> ('a::{plus,minus,times}, 's, 'r, 'k) models \<Rightarrow> 'a ndarray \<Rightarrow> 'a ndarray \<Rightarrow> 'a \<Rightarrow> 'a
     \<Rightarrow> int \<Rightarrow> 'a ndarray \<times> 's \<Rightarrow> py_error + 'a ndarray \<times> 's" where
  "denoise dbg m context cond_image guidance_scale controlnet_conditioning_scale
       num_inference_steps carry =
     (if dbg
      then for_loop [0..num_inference_steps - 1]
             (loop_body m context cond_image guidance_scale controlnet_conditioning_scale) carry
      else fori_loop 0 num_inference_steps
             (loop_body m context cond_image guidance_scale controlnet_conditioning_scale) carry)"

definition latents_shape :: "('a, 's, 'r, 'k) models \<Rightarrow> nat \<Rightarrow> nat \<Rightarrow> nat \<Rightarrow> nat list" where
  "latents_shape m batch_size height width =
     [batch_size, unet_in_channels m,
      height div vae_scale_factor m, width div vae_scale_factor m]"

definition init_latents ::
  "('a, 's, 'r, 'k) models \<Rightarrow> 'k \<Rightarrow> nat list \<Rightarrow> 'a ndarray option \<Rightarrow> py_error + 'a ndarray" where
  "init_latents m prng_seed lshape latents =
     (case latents of
        None \<Rightarrow> Inr (random_normal m prng_seed lshape)
      | Some l \<Rightarrow>
          if shape l \<noteq> lshape then Inl (ValueError (UnexpectedLatentsShape (shape l) lshape))
          else Inr l)"

text \<open>
  The lines after the loop: \<open>1 / scaling_factor * latents\<close>, the VAE decoder, and
  \<open>(image / 2 + 0.5).clip(0, 1).transpose(0, 2, 3, 1)\<close>. The constants \<open>2\<close> and
  \<open>0.5\<close> are written \<open>1 + 1\<close> and \<open>1 / (1 + 1)\<close>.
\<close>

definition decode_latents ::
  "('a::{one,zero,plus,times,inverse,ord}, 's, 'r, 'k) models \<Rightarrow> 'a ndarray \<Rightarrow> py_error + 'a ndarray" where
  "decode_latents m latents =
     (let latents = nd_map (\<lambda>x. (1 / vae_scaling_factor m) * x) latents;
          decoded = vae_decode m latents
      in transpose_0231 (nd_map (\<lambda>x. min (max (x / (1 + 1) + 1 / (1 + 1)) 0) 1) decoded))"

text \<open>
  The conditioning context: the embeddings of the negative prompt (the empty
  prompt for every item of the batch when \<open>neg_prompt_ids\<close> is absent) followed by
  those of the prompt.
\<close>

definition encode_context ::
  "('a, 's, 'r, 'k) models \<Rightarrow> int ndarray \<Rightarrow> nat \<Rightarrow> int ndarray option \<Rightarrow> py_error + 'a ndarray" where
  "encode_context m prompt_ids batch_size neg_prompt_ids =
     (let prompt_embeds = shard m (text_encoder m prompt_ids);
          max_len = last (shape prompt_ids);
          uncond_input =
            (case neg_prompt_ids of
               None \<Rightarrow>
                 tokenizer m (PyList (replicate batch_size (PyStr [])))
                   \<lparr>kw_padding = ''max_length'', kw_max_length = max_len,
                    kw_truncation = False, kw_return_tensors = ''np''\<rparr>
             | Some ids \<Rightarrow> ids);
          negative_prompt_embeds = shard m (text_encoder m uncond_input)
      in concatenate negative_prompt_embeds prompt_embeds)"

text \<open>
  The calls into the models, in the order \<open>_generate\<close> makes them; the result of
  \<open>_generate\<close> is paired with the calls made before it returned or raised.
\<close>

datatype event = TextEncoder | Tokenizer | RandomNormal | SetTimesteps | DenoisingLoop | VaeDecode

definition generate ::
  "bool \<Rightarrow> ('a::{one,zero,plus,minus,times,inverse,ord}, 's, 'r, 'k) models \<Rightarrow> int ndarray
     \<Rightarrow> 'a ndarray \<Rightarrow> 'k \<Rightarrow> int \<Rightarrow> 'a \<Rightarrow> 'a ndarray option \<Rightarrow> int ndarray option \<Rightarrow> 'a
     \<Rightarrow> event list \<times> (py_error + 'a ndarray)" where
  "generate dbg m prompt_ids cond_image prng_seed num_inference_steps guidance_scale latents
       neg_prompt_ids controlnet_conditioning_scale =
     (case rev (shape cond_image) of
        width # height # _ \<Rightarrow>
          if height mod 64 \<noteq> 0 \<or> width mod 64 \<noteq> 0
          then ([], Inl (ValueError (DivisibleBy64 height width)))
          else
            (case shape prompt_ids of
               [] \<Rightarrow> ([TextEncoder], Inl IndexError)
             | batch_size # _ \<Rightarrow>
                 (let log1 = TextEncoder
                             # (case neg_prompt_ids of None \<Rightarrow> [Tokenizer] | Some _ \<Rightarrow> [])
                             @ [TextEncoder]
                  in case encode_context m prompt_ids batch_size neg_prompt_ids of
                       Inl e \<Rightarrow> (log1, Inl e)
                     | Inr context \<Rightarrow>
                         (case concatenate cond_image cond_image of
                            Inl e \<Rightarrow> (log1, Inl e)
                          | Inr image2 \<Rightarrow>
                              (let lshape = latents_shape m batch_size height width
                               in case init_latents m prng_seed lshape latents of
                                    Inl e \<Rightarrow> (log1, Inl e)
                                  | Inr latents0 \<Rightarrow>
                                      (let log2 = log1
                                             @ (case latents of None \<Rightarrow> [RandomNormal]
                                                | Some _ \<Rightarrow> [])
                                             @ [SetTimesteps, DenoisingLoop];
                                           scheduler_state =
                                             set_timesteps m num_inference_steps lshape;
                                           latents1 =
                                             nd_map (\<lambda>x. x * init_noise_sigma m) latents0
                                       in case denoise dbg m context image2 guidance_scale
                                                 controlnet_conditioning_scale
                                                 num_inference_steps
                                                 (latents1, scheduler_state) of
                                            Inl e \<Rightarrow> (log2, Inl e)
                                          | Inr (latents2, _) \<Rightarrow>
                                              (log2 @ [VaeDecode],
                                               decode_latents m latents2))))))
      | _ \<Rightarrow> ([], Inl (ValueError NotEnoughValuesToUnpack)))"

subsection \<open>\<open>__call__\<close>: the safety check after generation\<close>




section \<open>Media utilities: \<open>utils.py\<close>\<close>

subsection \<open>Python floats\<close>

text \<open>
  The functions of \<open>utils.py\<close> are written over a type \<open>'f\<close> of floats whose
  arithmetic and order are the operations of the type; \<open>float_of_int\<close> is the
  conversion of an integer operand and \<open>int_of_float\<close> is \<open>int(x)\<close> (and
  \<open>astype(int)\<close>), which drops the fraction.
\<close>

record 'f pyfloat =
  float_of_int :: "int \<Rightarrow> 'f"
  int_of_float :: "'f \<Rightarrow> int"

text \<open>
  A Python float is an IEEE 754 binary64 number. A finite double is modelled by
  the rational number it denotes, and every arithmetic operation, like the
  conversion of an integer, returns the exact result rounded to the nearest
  number with a significand of 53 bits, ties going to the even significand:
  \<open>binade x\<close> is the exponent \<open>e\<close> with \<open>2^e \<le> |x| < 2^(e+1)\<close>, the doubles of that
  binade are the multiples of \<open>2^(e-52)\<close>, and \<open>round_double\<close> picks the nearest
  one. The exponent is not bounded: the infinities, NaN and the loss of
  precision below \<open>2^-1022\<close> are not part of the model, which is the double
  arithmetic on results between \<open>2^-1022\<close> and \<open>2^1024\<close> in magnitude.
\<close>

definition round_half_even :: "rat \<Rightarrow> int" where
  "round_half_even q =
     (let f = \<lfloor>q\<rfloor>; d = q - of_int f
      in if d < 1 / 2 then f else if 1 / 2 < d then f + 1 else if even f then f else f + 1)"

definition binade :: "rat \<Rightarrow> int" where
  "binade x =
     (if 1 \<le> \<bar>x\<bar> then int (floorlog 2 (nat \<lfloor>\<bar>x\<bar>\<rfloor>)) - 1
      else - int (floorlog 2 (nat (\<lceil>1 / \<bar>x\<bar>\<rceil> - 1))))"

definition round_double :: "rat \<Rightarrow> rat" where
  "round_double x =
     (if x = 0 then 0
      else let g = 2 powi (binade x - 52) in of_int (round_half_even (x / g)) * g)"

text \<open>\<open>int(x)\<close> of a float: the integer part, rounding towards zero.\<close>

definition trunc :: "rat \<Rightarrow> int" where
  "trunc x = (if 0 \<le> x then \<lfloor>x\<rfloor> else \<lceil>x\<rceil>)"

datatype double = Double (to_rat: rat)

instantiation double :: "{zero,one,plus,minus,uminus,times,inverse,ord}"
begin

definition zero_double :: double where
  "zero_double = Double 0"

definition one_double :: double where
  "one_double = Double 1"

definition plus_double :: "double \<Rightarrow> double \<Rightarrow> double" where
  "plus_double a b = Double (round_double (to_rat a + to_rat b))"

definition minus_double :: "double \<Rightarrow> double \<Rightarrow> double" where
  "minus_double a b = Double (round_double (to_rat a - to_rat b))"

definition uminus_double :: "double \<Rightarrow> double" where
  "uminus_double a = Double (- to_rat a)"

definition times_double :: "double \<Rightarrow> double \<Rightarrow> double" where
  "times_double a b = Double (round_double (to_rat a * to_rat b))"

definition divide_double :: "double \<Rightarrow> double \<Rightarrow> double" where
  "divide_double a b = Double (round_double (to_rat a / to_rat b))"

definition inverse_double :: "double \<Rightarrow> double" where
  "inverse_double a = Double (round_double (1 / to_rat a))"

definition less_eq_double :: "double \<Rightarrow> double \<Rightarrow> bool" where
  "less_eq_double a b \<longleftrightarrow> to_rat a \<le> to_rat b"

definition less_double :: "double \<Rightarrow> double \<Rightarrow> bool" where
  "less_double a b \<longleftrightarrow> to_rat a < to_rat b"

instance ..

end

definition double_float :: "double pyfloat" where
  "double_float =
     \<lparr>float_of_int = (\<lambda>n. Double (round_double (of_int n))),
      int_of_float = (\<lambda>x. trunc (to_rat x))\<rparr>"

subsection \<open>\<open>add_watermark\<close>\<close>

text \<open>
  The watermark file is given by the size \<open>(w_0, h_0)\<close> and the mode of the image
  that \<open>Image.open\<close> returns, the target image by its shape. The result describes
  the call \<open>image.paste(watermark, (loc_w, loc_h), mask)\<close>: the size of the resized
  watermark, the offset, and whether the watermark is its own mask.
  \<open>Image.resize\<close> is a library function, of which the size of the result and the
  refusal of a side below one pixel (``height and width must be > 0'') are
  modelled. The true division \<open>h_0 / w_0\<close> of two integers is written as the
  division of their conversions, which is the same double for integers below
  \<open>2^53\<close>.
\<close>

record paste_call =
  pasted_size :: "int \<times> int"
  paste_box :: "int \<times> int"
  paste_mask :: bool

definition resize :: "int \<times> int \<Rightarrow> py_error + int \<times> int" where
  "resize new_size =
     (case new_size of (w, h) \<Rightarrow>
        if w < 1 \<or> h < 1 then Inl (ValueError ResizeSize) else Inr (w, h))"

definition paste_resized :: "string \<Rightarrow> nat \<Rightarrow> nat \<Rightarrow> int \<Rightarrow> int \<times> int \<Rightarrow> paste_call" where
  "paste_resized watermark_mode H W boundary resized =
     (case resized of (w, h) \<Rightarrow>
        (let loc_h = int H - h - boundary;
             loc_w = int W - w - boundary
         in \<lparr>pasted_size = (w, h), paste_box = (loc_w, loc_h),
             paste_mask = (watermark_mode = ''RGBA'' \<or> watermark_mode = ''LA'')\<rparr>))"

definition add_watermark ::
  "'f::{one,zero,times,inverse,ord} pyfloat \<Rightarrow> nat list \<Rightarrow> nat \<times> nat \<Rightarrow> string \<Rightarrow> 'f \<Rightarrow> int
     \<Rightarrow> py_error + paste_call" where
  "add_watermark fl image_shape watermark_size watermark_mode wm_rel_size boundary =
     (case watermark_size of (w_0, h_0) \<Rightarrow>
        (case image_shape of
           [H, W, _] \<Rightarrow>
             (let wmsize = int_of_float fl (float_of_int fl (int (max H W)) * wm_rel_size)
              in if w_0 = 0 then Inl ZeroDivisionError
                 else
                   (let aspect = float_of_int fl (int h_0) / float_of_int fl (int w_0)
                    in if 1 < aspect
                       then (case resize (wmsize, int_of_float fl (aspect * float_of_int fl wmsize)) of
                               Inl e \<Rightarrow> Inl e
                             | Inr resized \<Rightarrow>
                                 Inr (paste_resized watermark_mode H W boundary resized))
                       else if aspect = 0 then Inl ZeroDivisionError
                       else (case resize (int_of_float fl (float_of_int fl wmsize / aspect), wmsize) of
                               Inl e \<Rightarrow> Inl e
                             | Inr resized \<Rightarrow>
                                 Inr (paste_resized watermark_mode H W boundary resized))))
         | _ \<Rightarrow>
             Inl (ValueError (if length image_shape < 3 then NotEnoughValuesToUnpack
                              else TooManyValuesToUnpack))))"

subsection \<open>\<open>prepare_video\<close>: the choice of the frames\<close>

text \<open>
  \<open>np.linspace(start, stop, num, endpoint=False).astype(int)\<close>, a library function,
  as numpy computes it: the step is \<open>(stop - start) / num\<close>, element \<open>i\<close> is
  \<open>i * step + start\<close> (or \<open>(i / num) * (stop - start) + start\<close> when the step is
  zero), and a negative \<open>num\<close> is refused.
\<close>

definition linspace_int ::
  "'f::{zero,plus,minus,times,inverse} pyfloat \<Rightarrow> int \<Rightarrow> int \<Rightarrow> int \<Rightarrow> py_error + int list" where
  "linspace_int fl start stop num =
     (if num < 0 then Inl (ValueError NegativeSamples)
      else
        (let delta = float_of_int fl stop - float_of_int fl start;
             step = delta / float_of_int fl num
         in Inr (map (\<lambda>i. int_of_float fl
                          ((if step = 0
                            then (float_of_int fl i / float_of_int fl num) * delta
                            else float_of_int fl i * step)
                           + float_of_int fl start))
                   [0..num - 1])))"

text \<open>
  The video file is given by what the reader reports: the number of frames
  \<open>len(vr)\<close> and the average frame rate. The two values the function resolves:
\<close>

definition resolved_output_fps :: "'f pyfloat \<Rightarrow> 'f \<Rightarrow> int \<Rightarrow> int" where
  "resolved_output_fps fl initial_fps output_fps =
     (if output_fps = - 1 then int_of_float fl initial_fps else output_fps)"

definition resolved_end_t :: "'f::{one,uminus,inverse,ord} pyfloat \<Rightarrow> nat \<Rightarrow> 'f \<Rightarrow> 'f \<Rightarrow> 'f" where
  "resolved_end_t fl n_frames initial_fps end_t =
     (let duration = float_of_int fl (int n_frames) / initial_fps
      in if end_t = - 1 then duration
         else if end_t < duration then end_t else duration)"

text \<open>
  \<open>prepare_video\<close> up to the computation of \<open>sample_idx\<close>; the result is
  \<open>sample_idx\<close> and the \<open>output_fps\<close> the function returns. The decoding and the
  resizing of the chosen frames are library calls on the video data and are not
  part of the model.
\<close>

definition prepare_video_sample_idx ::
  "'f::{one,zero,uminus,plus,minus,times,inverse,ord} pyfloat \<Rightarrow> nat \<Rightarrow> 'f \<Rightarrow> 'f \<Rightarrow> 'f \<Rightarrow> int
     \<Rightarrow> py_error + int list \<times> int" where
  "prepare_video_sample_idx fl n_frames initial_fps start_t end_t output_fps =
     (let output_fps = resolved_output_fps fl initial_fps output_fps
      in if initial_fps = 0 then Inl ZeroDivisionError
         else
           (let end_t = resolved_end_t fl n_frames initial_fps end_t
            in if \<not> (0 \<le> start_t \<and> start_t < end_t) then Inl AssertionError
               else if \<not> 0 < output_fps then Inl AssertionError
               else
                 (let start_f_ind = int_of_float fl (start_t * initial_fps);
                      end_f_ind = int_of_float fl (end_t * initial_fps);
                      num_f = int_of_float fl ((end_t - start_t) * float_of_int fl output_fps)
                  in case linspace_int fl start_f_ind end_f_ind num_f of
                       Inl e \<Rightarrow> Inl e
                     | Inr sample_idx \<Rightarrow> Inr (sample_idx, output_fps))))"

subsection \<open>\<open>post_process_gif\<close>\<close>

text \<open>
  \<open>imageio.mimsave(path, frames, fps=...)\<close> is an external encoder: it is a parameter
  \<open>mimsave\<close> that maps the frames and the frame rate to the bytes written. The file
  system is a map from paths to file contents.
\<close>

type_synonym 'b filesystem = "string \<rightharpoonup> 'b"

definition post_process_gif ::
  "('fr list \<Rightarrow> nat \<Rightarrow> 'b) \<Rightarrow> 'b filesystem \<Rightarrow> 'fr list \<Rightarrow> 'r \<Rightarrow> 'b filesystem \<times> string" where
  "post_process_gif mimsave fs list_of_results image_resolution =
     (let output_file = ''/tmp/ddxk.gif''
      in (fs(output_file \<mapsto> mimsave list_of_results 4), output_file))"

section \<open>Concrete components\<close>

text \<open>
  The prompts \<open>prepare_text_inputs\<close> is meant for: a single string or a list of
  strings, and the number of prompts such an argument holds.
\<close>

fun is_str :: "pyval \<Rightarrow> bool" where
  "is_str (PyStr _) = True"
| "is_str _ = False"

fun text_prompt :: "pyval \<Rightarrow> bool" where
  "text_prompt (PyStr _) = True"
| "text_prompt (PyList xs) = list_all is_str xs"
| "text_prompt _ = False"

fun num_prompts :: "pyval \<Rightarrow> nat" where
  "num_prompts (PyStr _) = 1"
| "num_prompts (PyList xs) = length xs"
| "num_prompts _ = 0"

text \<open>
  A tokenizer that honours \<open>padding="max_length"\<close> and \<open>truncation=True\<close>: each
  prompt is encoded by \<open>encode\<close>, cut to \<open>max_length\<close> when truncation is asked for,
  and filled with the padding token up to \<open>max_length\<close> when that padding is asked
  for. It stands in for the library tokenizer where a concrete one is needed.
\<close>

definition pad_truncate :: "tokenizer_kwargs \<Rightarrow> int \<Rightarrow> int list \<Rightarrow> int list" where
  "pad_truncate kw pad ids =
     (let cut = (if kw_truncation kw then take (kw_max_length kw) ids else ids)
      in if kw_padding kw = ''max_length''
         then cut @ replicate (kw_max_length kw - length cut) pad
         else cut)"

fun prompt_strings :: "pyval \<Rightarrow> string list" where
  "prompt_strings (PyStr s) = [s]"
| "prompt_strings (PyList xs) = concat (map (\<lambda>x. case x of PyStr s \<Rightarrow> [s] | _ \<Rightarrow> []) xs)"
| "prompt_strings _ = []"

definition reference_tokenizer ::
  "(string \<Rightarrow> int list) \<Rightarrow> int \<Rightarrow> pyval \<Rightarrow> tokenizer_kwargs \<Rightarrow> int ndarray" where
  "reference_tokenizer encode pad prompt kw =
     (let rows = map (\<lambda>s. pad_truncate kw pad (encode s)) (prompt_strings prompt)
      in \<lparr>shape = [length rows, (case rows of [] \<Rightarrow> kw_max_length kw | r # _ \<Rightarrow> length r)],
          data = concat rows\<rparr>)"

text \<open>
  A small instance of the external components, with rational numbers as the
  floats, on which the model can be evaluated: the denoiser multiplies each element by
  its position, the scheduler subtracts the noise prediction from the latents and counts the steps.
\<close>

definition toy_models :: "(rat, nat, unit, nat) models" where
  "toy_models =
     \<lparr>tokenizer = reference_tokenizer (map of_char) 0,
      model_max_length = 77,
      text_encoder = (\<lambda>ids. \<lparr>shape = shape ids @ [1], data = map of_int (data ids)\<rparr>),
      shard = (\<lambda>x. x),
      unet_in_channels = 4,
      vae_block_out_channels = [128, 256, 512, 512],
      vae_scaling_factor = 1,
      vae_decode = (\<lambda>x. x),
      random_normal = (\<lambda>key sh. \<lparr>shape = sh, data = replicate (prod_list sh) 0\<rparr>),
      set_timesteps = (\<lambda>n sh. 0),
      init_noise_sigma = 1,
      timestep_at = (\<lambda>st step. step),
      scale_model_input = (\<lambda>st x t. x),
      controlnet_apply = (\<lambda>x ts ctx img cs. ()),
      unet_apply = (\<lambda>x ts ctx res.
         x\<lparr>data := map2 (\<lambda>v i. v * of_nat i) (data x) [0..<length (data x)]\<rparr>),
      scheduler_step = (\<lambda>st noise t latents. (nd_map2 (-) latents noise, st + 1)),
      safety_checker = None,
      to_uint8 = (\<lambda>x. of_int \<lfloor>x * 255\<rfloor>),
      of_uint8 = (\<lambda>w. of_nat (unat w))\<rparr>"

section \<open>Theorems\<close>

text \<open>
  C10: \<open>post_process_gif\<close> writes the encoding of its frames at 4 frames per second
  to the fixed path \<open>/tmp/ddxk.gif\<close>, returns that path, and two calls that differ
  only in \<open>image_resolution\<close> give the same file system and the same path.
\<close>

theorem post_process_gif_fixed_path_independent:
  "snd (post_process_gif mimsave fs rs r1) = ''/tmp/ddxk.gif''
   \<and> fst (post_process_gif mimsave fs rs r1) ''/tmp/ddxk.gif'' = Some (mimsave rs 4)
   \<and> post_process_gif mimsave fs rs r1 = post_process_gif mimsave fs rs r2"
  by (simp add: post_process_gif_def Let_def)




subsection \<open>The two loops of \<open>_generate\<close>\<close>

lemma fori_loop_eq_for_loop:
  "fori_loop lower upper body val = for_loop [lower..upper - 1] body val"
proof (induction lower upper body val rule: fori_loop.induct)
  case (1 lower upper body_fun val)
  show ?case
  proof (cases "lower < upper")
    case True
    then have range: "[lower..upper - 1] = lower # [lower + 1..upper - 1]"
      by (simp add: upto_rec1)
    show ?thesis
    proof (cases "body_fun lower val")
      case (Inl e)
      with True range show ?thesis
        by (simp add: fori_loop.simps [of lower upper])
    next
      case (Inr val')
      with True range 1 show ?thesis
        by (simp add: fori_loop.simps [of lower upper])
    qed
  next
    case False
    then show ?thesis
      by (simp add: fori_loop.simps [of lower upper])
  qed
qed

lemma denoise_debug:
  "denoise True m ctx img gs cs n carry = denoise False m ctx img gs cs n carry"
  by (simp add: denoise_def fori_loop_eq_for_loop)

text \<open>
  C6: for every initial latents, scheduler state and step count (also zero and
  negative ones), the denoising loop run as the Python loop (\<open>DEBUG\<close> set) and run
  as \<open>jax.lax.fori_loop\<close> end with the same latents and scheduler state, or with
  the same error; hence \<open>_generate\<close> returns the same result on both paths, after
  the same calls into the models.
\<close>

theorem generate_debug_equivalent:
  "denoise True m context image2 guidance_scale controlnet_conditioning_scale
     num_inference_steps (latents, scheduler_state)
   = denoise False m context image2 guidance_scale controlnet_conditioning_scale
       num_inference_steps (latents, scheduler_state)
   \<and> generate True m prompt_ids cond_image prng_seed num_inference_steps guidance_scale
       supplied_latents neg_prompt_ids controlnet_conditioning_scale
     = generate False m prompt_ids cond_image prng_seed num_inference_steps guidance_scale
         supplied_latents neg_prompt_ids controlnet_conditioning_scale"
  by (simp only: generate_def denoise_debug)

theorem generate_debug_equivalent_witness:
  "denoise True toy_models \<lparr>shape = [2, 77, 1], data = replicate 154 0\<rparr>
     \<lparr>shape = [2, 3, 64, 64], data = replicate 24576 0\<rparr> (15 / 2) 1 3
     (\<lparr>shape = [1, 4, 8, 8], data = replicate 256 1\<rparr>, 0)
   = denoise False toy_models \<lparr>shape = [2, 77, 1], data = replicate 154 0\<rparr>
       \<lparr>shape = [2, 3, 64, 64], data = replicate 24576 0\<rparr> (15 / 2) 1 3
       (\<lparr>shape = [1, 4, 8, 8], data = replicate 256 1\<rparr>, 0)
   \<and> generate True toy_models \<lparr>shape = [1, 77], data = replicate 77 0\<rparr>
       \<lparr>shape = [1, 3, 64, 64], data = replicate 12288 0\<rparr> 0 3 (15 / 2) None None 1
     = generate False toy_models \<lparr>shape = [1, 77], data = replicate 77 0\<rparr>
         \<lparr>shape = [1, 3, 64, 64], data = replicate 12288 0\<rparr> 0 3 (15 / 2) None None 1"
  by (rule generate_debug_equivalent)

subsection \<open>Classifier-free guidance in \<open>loop_body\<close>\<close>

lemma jnp_split2_doubled:
  "shape x = (2 * k) # rest \<Longrightarrow>
   jnp_split2 x =
     Inr (\<lparr>shape = k # rest, data = take (k * prod_list rest) (data x)\<rparr>,
          \<lparr>shape = k # rest, data = drop (k * prod_list rest) (data x)\<rparr>)"
  by (simp add: jnp_split2_def Let_def)

lemma guidance_elementwise:
  "map2 (+) us (map (\<lambda>x. g * x) (map2 (-) ts us)) = map2 (\<lambda>u x. u + g * (x - u)) us ts"
proof (induction us arbitrary: ts)
  case Nil
  then show ?case by simp
next
  case (Cons u us)
  then show ?case by (cases ts) simp_all
qed

lemma guided_nd:
  "nd_map2 (+) \<lparr>shape = s, data = us\<rparr>
     (nd_map (\<lambda>x. g * x) (nd_map2 (-) \<lparr>shape = s, data = ts\<rparr> \<lparr>shape = s, data = us\<rparr>))
   = \<lparr>shape = s, data = map2 (\<lambda>u x. u + g * (x - u)) us ts\<rparr>"
  by (simp add: nd_map2_def nd_map_def guidance_elementwise [symmetric])

text \<open>
  C1: in an iteration of the loop whose denoiser returns a doubled batch
  \<open>noise_pred\<close> (leading axis \<open>2 * k\<close>) at timestep \<open>t\<close>, the unconditional half is
  the first \<open>k\<close> items of the batch and the text-conditioned half the last \<open>k\<close>,
  the final noise prediction is, element by element,
  \<open>uncond + guidance_scale * (text - uncond)\<close>, and the iteration returns what the
  scheduler's step returns for exactly this prediction, the timestep and the
  latents.
\<close>

theorem loop_body_guidance:
  assumes "denoiser_output m context cond_image controlnet_conditioning_scale step latents
             scheduler_state = Inr (noise_pred, t)"
    and "shape noise_pred = (2 * k) # rest"
  shows "loop_body m context cond_image guidance_scale controlnet_conditioning_scale step
           (latents, scheduler_state)
         = Inr (scheduler_step m scheduler_state
                  \<lparr>shape = k # rest,
                   data = map2 (\<lambda>uncond text. uncond + guidance_scale * (text - uncond))
                            (take (k * prod_list rest) (data noise_pred))
                            (drop (k * prod_list rest) (data noise_pred))\<rparr>
                  t latents)"
  using assms
  by (simp add: loop_body_def jnp_split2_doubled guided_nd)

theorem loop_body_guidance_witness:
  "loop_body toy_models \<lparr>shape = [2, 1], data = [0, 0]\<rparr> \<lparr>shape = [2, 1], data = [0, 0]\<rparr>
     2 1 0 (\<lparr>shape = [1, 2], data = [3, 5]\<rparr>, 0)
   = Inr (\<lparr>shape = [1, 2], data = [3 - (0 + 2 * (6 - 0)), 5 - (5 + 2 * (15 - 5))]\<rparr>, 1)"
  using loop_body_guidance [of toy_models "\<lparr>shape = [2, 1], data = [0, 0]\<rparr>"
          "\<lparr>shape = [2, 1], data = [0, 0]\<rparr>" 1 0 "\<lparr>shape = [1, 2], data = [3, 5]\<rparr>" 0
          "\<lparr>shape = [2, 2], data = [0, 5, 6, 15]\<rparr>" 0 1 "[2]" 2]
  by (simp add: denoiser_output_def concatenate_def toy_models_def nd_map2_def upt_rec)

subsection \<open>The checks of \<open>_generate\<close>\<close>

lemma for_loop_error:
  assumes "\<And>i c e. body i c = Inl e \<Longrightarrow> P e"
  shows "for_loop xs body c = Inl e \<Longrightarrow> P e"
proof (induction xs arbitrary: c)
  case Nil
  then show ?case by simp
next
  case (Cons i xs)
  then show ?case using assms by (auto split: sum.splits)
qed

lemma loop_body_error:
  "loop_body m ctx img gs cs step carry = Inl e \<Longrightarrow> e \<noteq> ValueError (DivisibleBy64 h w)"
  by (auto simp: loop_body_def denoiser_output_def concatenate_def jnp_split2_def Let_def
           split: prod.splits sum.splits list.splits if_splits)

lemma denoise_error:
  "denoise dbg m ctx img gs cs n carry = Inl e \<Longrightarrow> e \<noteq> ValueError (DivisibleBy64 h w)"
proof -
  assume "denoise dbg m ctx img gs cs n carry = Inl e"
  then have "for_loop [0..n - 1] (loop_body m ctx img gs cs) carry = Inl e"
    by (simp add: denoise_def fori_loop_eq_for_loop split: if_splits)
  then show ?thesis
    by (rule for_loop_error [rotated]) (rule loop_body_error)
qed

lemma later_errors:
  "encode_context m ids b neg = Inl e \<Longrightarrow> e \<noteq> ValueError (DivisibleBy64 h w)"
  "concatenate x y = Inl e \<Longrightarrow> e \<noteq> ValueError (DivisibleBy64 h w)"
  "init_latents m seed ls lat = Inl e \<Longrightarrow> e \<noteq> ValueError (DivisibleBy64 h w)"
  "decode_latents m z = Inl e \<Longrightarrow> e \<noteq> ValueError (DivisibleBy64 h w)"
  by (auto simp: encode_context_def concatenate_def init_latents_def decode_latents_def
                 transpose_0231_def Let_def
           split: prod.splits sum.splits list.splits if_splits option.splits)

text \<open>
  C4: for a conditioning image whose last two axes are \<open>height\<close> and \<open>width\<close>: if
  one of them is not divisible by 64, \<open>_generate\<close> raises the \<open>ValueError\<close> about
  divisibility and has called no model (no text encoding, no sampling, no
  denoising); if both are divisible by 64, the check passes: the text encoder is
  the first call, and whatever \<open>_generate\<close> returns or raises later is not that
  error.
\<close>

theorem generate_divisible_by_64:
  assumes "rev (shape cond_image) = width # height # rest"
  shows "(\<not> (64 dvd height \<and> 64 dvd width) \<longrightarrow>
            generate dbg m prompt_ids cond_image prng_seed num_inference_steps guidance_scale
              latents neg_prompt_ids controlnet_conditioning_scale
            = ([], Inl (ValueError (DivisibleBy64 height width))))
       \<and> (64 dvd height \<and> 64 dvd width \<longrightarrow>
            snd (generate dbg m prompt_ids cond_image prng_seed num_inference_steps
                   guidance_scale latents neg_prompt_ids controlnet_conditioning_scale)
              \<noteq> Inl (ValueError (DivisibleBy64 h w))
            \<and> hd (fst (generate dbg m prompt_ids cond_image prng_seed num_inference_steps
                   guidance_scale latents neg_prompt_ids controlnet_conditioning_scale))
              = TextEncoder)"
  using assms
  by (auto simp: generate_def Let_def mod_eq_0_iff_dvd
           split: sum.splits list.splits prod.splits
           dest: later_errors denoise_error)

theorem generate_divisible_by_64_witness:
  "generate False toy_models \<lparr>shape = [1, 77], data = replicate 77 0\<rparr>
     \<lparr>shape = [1, 3, 300, 300], data = replicate 270000 0\<rparr> 0 50 (15 / 2) None None 1
   = ([], Inl (ValueError (DivisibleBy64 300 300)))
   \<and> hd (fst (generate False toy_models \<lparr>shape = [1, 77], data = replicate 77 0\<rparr>
        \<lparr>shape = [1, 3, 512, 512], data = replicate 786432 0\<rparr> 0 50 (15 / 2) None None 1))
     = TextEncoder"
  using generate_divisible_by_64 [of "\<lparr>shape = [1, 3, 300, 300], data = replicate 270000 0\<rparr>"
          300 300 "[3, 1]" False toy_models "\<lparr>shape = [1, 77], data = replicate 77 0\<rparr>"
          0 50 "15 / 2" None None 1 0 0]
        generate_divisible_by_64 [of "\<lparr>shape = [1, 3, 512, 512], data = replicate 786432 0\<rparr>"
          512 512 "[3, 1]" False toy_models "\<lparr>shape = [1, 77], data = replicate 77 0\<rparr>"
          0 50 "15 / 2" None None 1 0 0]
  by simp




subsection \<open>\<open>prepare_text_inputs\<close>\<close>

lemma length_pad_truncate:
  "kw_padding kw = ''max_length'' \<Longrightarrow> kw_truncation kw \<Longrightarrow>
   length (pad_truncate kw pad ids) = kw_max_length kw"
  by (simp add: pad_truncate_def Let_def)

lemma length_prompt_strings:
  "text_prompt p \<Longrightarrow> length (prompt_strings p) = num_prompts p"
proof (cases p)
  case (PyList xs)
  assume "text_prompt p"
  with PyList have "list_all is_str xs" by simp
  then have "length (concat (map (\<lambda>x. case x of PyStr s \<Rightarrow> [s] | _ \<Rightarrow> []) xs)) = length xs"
  proof (induction xs)
    case Nil
    then show ?case by simp
  next
    case (Cons x xs)
    then show ?case by (cases x) simp_all
  qed
  with PyList show ?thesis by simp
qed simp_all

lemma reference_tokenizer_shape:
  assumes "text_prompt p" and "kw_padding kw = ''max_length''" and "kw_truncation kw"
  shows "shape (reference_tokenizer encode pad p kw) = [num_prompts p, kw_max_length kw]"
  using assms
  by (cases "prompt_strings p")
     (simp_all add: reference_tokenizer_def Let_def length_pad_truncate
        length_prompt_strings [symmetric])

text \<open>
  C8: with a tokenizer that honours \<open>padding="max_length"\<close> and \<open>truncation=True\<close>
  (for a string or a list of strings it returns one row per prompt, each of the
  requested \<open>max_length\<close>), \<open>prepare_text_inputs\<close> returns, for a single string or a
  list of strings, the token ids the tokenizer gives for exactly these two
  settings and \<open>max_length = model_max_length\<close>, an array of one row per prompt
  whose sequence length is the tokenizer's \<open>model_max_length\<close>; for an argument
  that is neither a string nor a list it raises the \<open>ValueError\<close> and returns
  nothing.
\<close>

theorem prepare_text_inputs_max_length:
  assumes "\<And>p kw. text_prompt p \<Longrightarrow> kw_padding kw = ''max_length'' \<Longrightarrow> kw_truncation kw \<Longrightarrow>
             shape (tokenizer m p kw) = [num_prompts p, kw_max_length kw]"
  shows "(text_prompt prompt \<longrightarrow>
            prepare_text_inputs m prompt
              = Inr (tokenizer m prompt
                       \<lparr>kw_padding = ''max_length'', kw_max_length = model_max_length m,
                        kw_truncation = True, kw_return_tensors = ''np''\<rparr>)
            \<and> (\<exists>input_ids. prepare_text_inputs m prompt = Inr input_ids
                  \<and> shape input_ids = [num_prompts prompt, model_max_length m]))
       \<and> ((\<forall>s. prompt \<noteq> PyStr s) \<and> (\<forall>xs. prompt \<noteq> PyList xs) \<longrightarrow>
            prepare_text_inputs m prompt = Inl (ValueError PromptType))"
proof -
  have accepted: "prepare_text_inputs m prompt
              = Inr (tokenizer m prompt
                       \<lparr>kw_padding = ''max_length'', kw_max_length = model_max_length m,
                        kw_truncation = True, kw_return_tensors = ''np''\<rparr>)"
    if "text_prompt prompt"
    using that by (cases prompt) (simp_all add: prepare_text_inputs_def)
  have len: "shape (tokenizer m prompt
                       \<lparr>kw_padding = ''max_length'', kw_max_length = model_max_length m,
                        kw_truncation = True, kw_return_tensors = ''np''\<rparr>)
             = [num_prompts prompt, model_max_length m]"
    if "text_prompt prompt"
    using assms [OF that] by simp
  have refused: "prepare_text_inputs m prompt = Inl (ValueError PromptType)"
    if "\<forall>s. prompt \<noteq> PyStr s" and "\<forall>xs. prompt \<noteq> PyList xs"
    using that by (cases prompt) (simp_all add: prepare_text_inputs_def)
  from accepted len refused show ?thesis
    by auto
qed

theorem prepare_text_inputs_max_length_witness:
  "prepare_text_inputs toy_models (PyStr ''a cat'')
     = Inr \<lparr>shape = [1, 77], data = [97, 32, 99, 97, 116] @ replicate 72 0\<rparr>
   \<and> shape (tokenizer toy_models (PyList [PyStr ''a cat'', PyStr (replicate 100 CHR ''x'')])
        \<lparr>kw_padding = ''max_length'', kw_max_length = 77,
         kw_truncation = True, kw_return_tensors = ''np''\<rparr>) = [2, 77]
   \<and> prepare_text_inputs toy_models (PyInt 7) = Inl (ValueError PromptType)"
proof -
  have contract: "shape (tokenizer toy_models p kw) = [num_prompts p, kw_max_length kw]"
    if "text_prompt p" and "kw_padding kw = ''max_length''" and "kw_truncation kw" for p kw
    using that by (simp add: toy_models_def reference_tokenizer_shape)
  have max_len: "model_max_length toy_models = 77"
    by (simp add: toy_models_def)
  have row: "tokenizer toy_models (PyStr ''a cat'')
               \<lparr>kw_padding = ''max_length'', kw_max_length = 77,
                kw_truncation = True, kw_return_tensors = ''np''\<rparr>
             = \<lparr>shape = [1, 77], data = [97, 32, 99, 97, 116] @ replicate 72 0\<rparr>"
    by (simp add: toy_models_def reference_tokenizer_def pad_truncate_def)
  show ?thesis
    using prepare_text_inputs_max_length [of toy_models "PyStr ''a cat''", OF contract]
          prepare_text_inputs_max_length [of toy_models
            "PyList [PyStr ''a cat'', PyStr (replicate 100 CHR ''x'')]", OF contract]
          prepare_text_inputs_max_length [of toy_models "PyInt 7", OF contract]
          max_len row
    by auto
qed

subsection \<open>Rounding to double precision\<close>

lemma round_half_even_of_int: "round_half_even (of_int n) = n"
  by (simp add: round_half_even_def)

lemma round_half_even_bounds:
  "\<lfloor>q\<rfloor> \<le> round_half_even q" "round_half_even q \<le> \<lfloor>q\<rfloor> + 1"
  by (simp_all add: round_half_even_def Let_def)

lemma round_half_even_mono:
  assumes "q \<le> q'"
  shows "round_half_even q \<le> round_half_even q'"
proof (cases "\<lfloor>q\<rfloor> = \<lfloor>q'\<rfloor>")
  case True
  then show ?thesis
    using assms by (auto simp: round_half_even_def Let_def)
next
  case False
  with floor_mono [OF assms] have "\<lfloor>q\<rfloor> + 1 \<le> \<lfloor>q'\<rfloor>" by simp
  with round_half_even_bounds(2) [of q] round_half_even_bounds(1) [of q'] show ?thesis
    by linarith
qed

lemma round_half_even_error: "\<bar>of_int (round_half_even q) - q\<bar> \<le> 1 / 2"
proof -
  have "of_int \<lfloor>q\<rfloor> \<le> q" "q < of_int \<lfloor>q\<rfloor> + 1" by linarith+
  then show ?thesis
    by (auto simp: round_half_even_def Let_def abs_le_iff)
qed

lemma binade_bounds:
  assumes "x \<noteq> 0"
  shows "2 powi binade x \<le> \<bar>x\<bar>" and "\<bar>x\<bar> < 2 powi (binade x + 1)"
proof -
  have "2 powi binade x \<le> \<bar>x\<bar> \<and> \<bar>x\<bar> < 2 powi (binade x + 1)"
  proof (cases "1 \<le> \<bar>x\<bar>")
    case True
    define n where "n = nat \<lfloor>\<bar>x\<bar>\<rfloor>"
    define k where "k = floorlog 2 n"
    have fl1: "1 \<le> \<lfloor>\<bar>x\<bar>\<rfloor>" using True by (simp add: le_floor_iff)
    have npos: "0 < n" unfolding n_def using fl1 by (simp only: zero_less_nat_eq)
    from floorlog_bounds [OF npos, of 2] have b: "2 ^ (k - 1) \<le> n" "n < 2 ^ k"
      by (simp_all add: k_def)
    have kpos: "0 < k" using b(2) npos by (cases k) auto
    have e: "binade x = int k - 1" using True by (simp add: binade_def n_def k_def)
    have nle: "of_nat n \<le> \<bar>x\<bar>" "\<bar>x\<bar> < of_nat n + 1"
      using True by (simp_all add: n_def) linarith+
    have "(2::rat) powi (int k - 1) = 2 ^ (k - 1)"
      using kpos by (simp add: power_int_def nat_diff_distrib')
    also have "\<dots> = of_nat (2 ^ (k - 1))" by simp
    also have "\<dots> \<le> of_nat n" using b(1) by (simp only: of_nat_le_iff)
    finally have lo: "(2::rat) powi (int k - 1) \<le> \<bar>x\<bar>" using nle(1) by simp
    have "n + 1 \<le> 2 ^ k" using b(2) by simp
    then have "(of_nat (n + 1) :: rat) \<le> of_nat (2 ^ k)" by (simp only: of_nat_le_iff)
    then have "(of_nat n + 1 :: rat) \<le> 2 ^ k" by (simp only: of_nat_power of_nat_numeral of_nat_add of_nat_1)
    then have "\<bar>x\<bar> < 2 ^ k" using nle(2) by linarith
    then have hi: "\<bar>x\<bar> < 2 powi (int k - 1 + 1)" by simp
    from lo hi e show ?thesis by simp
  next
    case False
    define y where "y = 1 / \<bar>x\<bar>"
    have xpos: "0 < \<bar>x\<bar>" using assms by simp
    have y1: "1 < y" using False xpos by (simp add: y_def)
    define c where "c = nat (\<lceil>y\<rceil> - 1)"
    define k where "k = floorlog 2 c"
    have cy: "2 \<le> \<lceil>y\<rceil>" using y1 by linarith
    then have cpos: "0 < c" by (simp add: c_def)
    have cint: "int c = \<lceil>y\<rceil> - 1" using cy by (simp add: c_def)
    from floorlog_bounds [OF cpos, of 2] have b: "2 ^ (k - 1) \<le> c" "c < 2 ^ k"
      by (simp_all add: k_def)
    have kpos: "0 < k" using b(2) cpos by (cases k) auto
    have e: "binade x = - int k" using False by (simp add: binade_def y_def c_def k_def)
    have "of_int (int c) < y" unfolding cint by linarith
    then have clt: "of_nat c < y" by simp
    have "y \<le> of_int (int c + 1)" unfolding cint by simp
    then have yle: "y \<le> of_nat (c + 1)" by simp
    have "(of_nat (2 ^ (k - 1)) :: rat) \<le> of_nat c" using b(1) by (simp only: of_nat_le_iff)
    then have "(2::rat) ^ (k - 1) \<le> of_nat c" by (simp only: of_nat_power of_nat_numeral)
    then have lo: "2 ^ (k - 1) < y" using clt by linarith
    have "c + 1 \<le> 2 ^ k" using b(2) by simp
    then have "(of_nat (c + 1) :: rat) \<le> of_nat (2 ^ k)" by (simp only: of_nat_le_iff)
    then have "(of_nat (c + 1) :: rat) \<le> 2 ^ k" by (simp only: of_nat_power of_nat_numeral)
    then have hi: "y \<le> 2 ^ k" using yle by linarith
    have x: "\<bar>x\<bar> = 1 / y" by (simp add: y_def)
    have p1: "(2::rat) powi (- int k) = 1 / 2 ^ k"
      by (simp add: power_int_minus_divide)
    have p2: "(2::rat) powi (- int k + 1) = 1 / 2 ^ (k - 1)"
    proof -
      have "- int k + 1 = - int (k - 1)" using kpos by simp
      then show ?thesis by (simp only: power_int_minus_divide power_int_of_nat)
    qed
    have ypos: "0 < y" using y1 by simp
    have "1 / 2 ^ k \<le> 1 / y" using hi ypos by (simp add: frac_le)
    moreover have "1 / y < 1 / 2 ^ (k - 1)" using lo by (simp add: frac_less2)
    ultimately show ?thesis unfolding e p1 p2 x by simp
  qed
  then show "2 powi binade x \<le> \<bar>x\<bar>" and "\<bar>x\<bar> < 2 powi (binade x + 1)" by simp_all
qed


lemma round_double_zero: "round_double 0 = 0"
  by (simp add: round_double_def)

lemma round_double_unfold:
  assumes "x \<noteq> 0"
  shows "round_double x
         = of_int (round_half_even (x / 2 powi (binade x - 52))) * 2 powi (binade x - 52)"
  using assms by (simp add: round_double_def Let_def)

lemma grid_binade: "(2::rat) powi (e - 52) * 2 ^ 52 = 2 powi e"
  "(2::rat) powi (e - 52) * 2 ^ 53 = 2 powi (e + 1)"
proof -
  have "(2::rat) powi (e - 52) * 2 powi 52 = 2 powi (e - 52 + 52)"
    by (rule power_int_add [symmetric]) simp
  then show "(2::rat) powi (e - 52) * 2 ^ 52 = 2 powi e" by simp
  have "(2::rat) powi (e - 52) * 2 powi 53 = 2 powi (e - 52 + 53)"
    by (rule power_int_add [symmetric]) simp
  then show "(2::rat) powi (e - 52) * 2 ^ 53 = 2 powi (e + 1)" by (simp add: add.commute)
qed

lemma round_double_error: "\<bar>round_double x - x\<bar> \<le> \<bar>x\<bar> / 2 ^ 53"
proof (cases "x = 0")
  case True
  then show ?thesis by (simp add: round_double_zero)
next
  case False
  define g :: rat where "g = 2 powi (binade x - 52)"
  have gpos: "0 < g" by (simp add: g_def)
  have r: "round_double x = of_int (round_half_even (x / g)) * g"
    using round_double_unfold [OF False] by (simp add: g_def)
  have "round_double x - x = (of_int (round_half_even (x / g)) - x / g) * g"
    using gpos by (simp add: r field_simps)
  then have "\<bar>round_double x - x\<bar> = \<bar>of_int (round_half_even (x / g)) - x / g\<bar> * g"
    using gpos by (simp add: abs_mult)
  also have "\<dots> \<le> 1 / 2 * g"
    using round_half_even_error [of "x / g"] gpos by (intro mult_right_mono) simp_all
  also have "1 / 2 * g = 2 powi binade x / 2 ^ 53"
    using grid_binade(1) [of "binade x"] by (simp add: g_def field_simps)
  also have "\<dots> \<le> \<bar>x\<bar> / 2 ^ 53"
    using binade_bounds(1) [OF False] by (simp add: divide_right_mono)
  finally show ?thesis .
qed

lemma round_double_in_binade:
  assumes "0 < x"
  shows "2 powi binade x \<le> round_double x" and "round_double x \<le> 2 powi (binade x + 1)"
proof -
  from assms have nz: "x \<noteq> 0" by simp
  define g :: rat where "g = 2 powi (binade x - 52)"
  have gpos: "0 < g" by (simp add: g_def)
  have r: "round_double x = of_int (round_half_even (x / g)) * g"
    using round_double_unfold [OF nz] by (simp add: g_def)
  from binade_bounds [OF nz] assms
  have b: "2 powi binade x \<le> x" "x < 2 powi (binade x + 1)" by simp_all
  have "g * of_int (2 ^ 52) \<le> x"
    using b(1) grid_binade(1) [of "binade x"] by (simp add: g_def)
  then have "of_int (2 ^ 52) \<le> x / g"
    using gpos by (simp add: le_divide_eq mult.commute)
  from round_half_even_mono [OF this] have "2 ^ 52 \<le> round_half_even (x / g)"
    by (simp only: round_half_even_of_int)
  then have "(of_int (2 ^ 52) :: rat) \<le> of_int (round_half_even (x / g))"
    by (simp only: of_int_le_iff)
  then have "of_int (2 ^ 52) * g \<le> round_double x"
    unfolding r using gpos by (intro mult_right_mono) simp_all
  then show "2 powi binade x \<le> round_double x"
    using grid_binade(1) [of "binade x"] by (simp add: g_def mult.commute)
  have "x \<le> g * of_int (2 ^ 53)"
    using b(2) grid_binade(2) [of "binade x"] by (simp add: g_def)
  then have "x / g \<le> of_int (2 ^ 53)"
    using gpos by (simp add: divide_le_eq mult.commute)
  from round_half_even_mono [OF this] have "round_half_even (x / g) \<le> 2 ^ 53"
    by (simp only: round_half_even_of_int)
  then have "(of_int (round_half_even (x / g)) :: rat) \<le> of_int (2 ^ 53)"
    by (simp only: of_int_le_iff)
  then have "round_double x \<le> of_int (2 ^ 53) * g"
    unfolding r using gpos by (intro mult_right_mono) simp_all
  then show "round_double x \<le> 2 powi (binade x + 1)"
    using grid_binade(2) [of "binade x"] by (simp add: g_def mult.commute)
qed

lemma round_double_pos: "0 < x \<Longrightarrow> 0 < round_double x"
  using round_double_in_binade(1) [of x] zero_less_power_int [of "2::rat" "binade x"]
  by linarith

lemma round_double_nonneg: "0 \<le> x \<Longrightarrow> 0 \<le> round_double x"
  using round_double_pos [of x] by (cases "x = 0") (simp_all add: round_double_zero less_le)

lemma round_double_nonpos:
  assumes "x \<le> 0"
  shows "round_double x \<le> 0"
proof (cases "x = 0")
  case True
  then show ?thesis by (simp add: round_double_zero)
next
  case False
  define g :: rat where "g = 2 powi (binade x - 52)"
  have gpos: "0 < g" by (simp add: g_def)
  have r: "round_double x = of_int (round_half_even (x / g)) * g"
    using round_double_unfold [OF False] by (simp add: g_def)
  have "x / g \<le> of_int 0" using assms gpos by (simp add: divide_le_0_iff)
  from round_half_even_mono [OF this] have "round_half_even (x / g) \<le> 0"
    by (simp only: round_half_even_of_int)
  then show ?thesis
    unfolding r using gpos by (simp add: mult_le_0_iff)
qed

lemma binade_mono:
  assumes "0 < x" and "x \<le> y"
  shows "binade x \<le> binade y"
proof (rule ccontr)
  assume "\<not> binade x \<le> binade y"
  then have "binade y + 1 \<le> binade x" by simp
  then have "(2::rat) powi (binade y + 1) \<le> 2 powi binade x"
    by (intro power_int_increasing) simp_all
  moreover have "y < 2 powi (binade y + 1)" "2 powi binade x \<le> x"
    using binade_bounds [of x] binade_bounds [of y] assms by simp_all
  ultimately show False using assms by linarith
qed

lemma round_double_mono_pos:
  assumes "0 < x" and "x \<le> y"
  shows "round_double x \<le> round_double y"
proof (cases "binade x = binade y")
  case True
  define g :: rat where "g = 2 powi (binade x - 52)"
  have gpos: "0 < g" by (simp add: g_def)
  have nz: "x \<noteq> 0" "y \<noteq> 0" using assms by simp_all
  have rx: "round_double x = of_int (round_half_even (x / g)) * g"
    using round_double_unfold [OF nz(1)] by (simp add: g_def)
  have ry: "round_double y = of_int (round_half_even (y / g)) * g"
    using round_double_unfold [OF nz(2)] by (simp add: g_def True)
  have "x / g \<le> y / g" using assms gpos by (simp add: divide_right_mono)
  from round_half_even_mono [OF this] show ?thesis
    unfolding rx ry using gpos by (intro mult_right_mono) simp_all
next
  case False
  with binade_mono [OF assms] have "binade x + 1 \<le> binade y" by simp
  then have "(2::rat) powi (binade x + 1) \<le> 2 powi binade y"
    by (intro power_int_increasing) simp_all
  moreover have "0 < y" using assms by simp
  ultimately show ?thesis
    using round_double_in_binade(2) [OF assms(1)] round_double_in_binade(1) [of y]
    by linarith
qed

lemma round_double_mono_nonneg:
  assumes "0 \<le> x" and "x \<le> y"
  shows "round_double x \<le> round_double y"
proof (cases "x = 0")
  case True
  then show ?thesis using assms round_double_nonneg [of y] by (simp add: round_double_zero)
next
  case False
  with assms show ?thesis by (intro round_double_mono_pos) simp_all
qed

lemma round_double_dyadic:
  assumes "\<bar>m\<bar> < 2 ^ 53"
  shows "round_double (of_int m * 2 powi k) = of_int m * 2 powi k"
proof (cases "m = 0")
  case True
  then show ?thesis by (simp add: round_double_zero)
next
  case False
  define x :: rat where "x = of_int m * 2 powi k"
  have nz: "x \<noteq> 0" using False by (simp add: x_def)
  define e where "e = binade x"
  have ax: "\<bar>x\<bar> = of_int \<bar>m\<bar> * 2 powi k"
    by (simp add: x_def abs_mult)
  have "(of_int \<bar>m\<bar> :: rat) < of_int (2 ^ 53)"
    using assms by (simp only: of_int_less_iff)
  then have "\<bar>x\<bar> < 2 ^ 53 * 2 powi k"
    unfolding ax by (intro mult_strict_right_mono) simp_all
  also have "(2::rat) ^ 53 * 2 powi k = 2 powi (53 + k)"
    by (simp add: power_int_add)
  finally have lt: "2 powi e < (2::rat) powi (53 + k)"
    using binade_bounds(1) [OF nz] unfolding e_def by linarith
  have "e < 53 + k"
  proof (rule ccontr)
    assume "\<not> e < 53 + k"
    then have "53 + k \<le> e" by simp
    then have "(2::rat) powi (53 + k) \<le> 2 powi e"
      by (intro power_int_increasing) simp_all
    with lt show False by simp
  qed
  then have d: "0 \<le> k - (e - 52)" by simp
  define j where "j = nat (k - (e - 52))"
  have "(2::rat) powi k = 2 powi (e - 52) * 2 powi (k - (e - 52))"
    by (simp flip: power_int_add)
  also have "(2::rat) powi (k - (e - 52)) = 2 ^ j"
    using d by (simp add: j_def power_int_def)
  finally have k: "(2::rat) powi k = 2 powi (e - 52) * 2 ^ j" .
  have "x / 2 powi (e - 52) = of_int (m * 2 ^ j)"
    by (simp add: x_def k)
  then have "round_half_even (x / 2 powi (e - 52)) = m * 2 ^ j"
    by (simp only: round_half_even_of_int)
  then have "round_double x = of_int (m * 2 ^ j) * 2 powi (e - 52)"
    using round_double_unfold [OF nz] by (simp only: e_def)
  also have "\<dots> = x" by (simp add: x_def k)
  finally show ?thesis by (simp only: x_def)
qed

lemma round_double_of_int:
  assumes "\<bar>n\<bar> \<le> 2 ^ 53"
  shows "round_double (of_int n) = of_int n"
proof (cases "\<bar>n\<bar> < 2 ^ 53")
  case True
  from round_double_dyadic [OF True, of 0] show ?thesis by simp
next
  case False
  with assms have "n = 2 ^ 53 \<or> n = - (2 ^ 53)" by linarith
  then show ?thesis
    using round_double_dyadic [of 1 53] round_double_dyadic [of "- 1" 53] by auto
qed

lemma round_double_numeral:
  "numeral n \<le> (2 ^ 53 :: int) \<Longrightarrow> round_double (numeral n) = numeral n"
  using round_double_of_int [of "numeral n"] by simp

lemma round_double_one: "round_double 1 = 1"
  using round_double_of_int [of 1] by simp

lemma round_double_eq_zero:
  assumes "round_double x = 0"
  shows "x = 0"
proof (rule ccontr)
  assume nz: "x \<noteq> 0"
  have "\<bar>x\<bar> / 2 ^ 53 < \<bar>x\<bar>" using nz by simp
  with round_double_error [of x] assms show False by simp
qed

lemma trunc_nonneg: "0 \<le> x \<Longrightarrow> trunc x = \<lfloor>x\<rfloor>"
  by (simp add: trunc_def)

lemma trunc_of_int: "trunc (of_int n) = n"
  by (simp add: trunc_def)

lemma trunc_numeral: "trunc (numeral n) = numeral n"
  by (simp add: trunc_def)

lemma float_of_int_double: "float_of_int double_float n = Double (round_double (of_int n))"
  by (simp add: double_float_def)

lemma int_of_float_double: "int_of_float double_float x = trunc (to_rat x)"
  by (simp add: double_float_def)

lemmas double_arith =
  zero_double_def one_double_def plus_double_def minus_double_def uminus_double_def
  times_double_def divide_double_def less_eq_double_def less_double_def
  float_of_int_double int_of_float_double

lemma scaled_product_error:
  assumes "0 \<le> r" and "0 \<le> t"
  shows "\<bar>round_double (round_double r * t) - r * t\<bar> \<le> 3 * (r * t) / 2 ^ 53"
proof -
  define u :: rat where "u = 1 / 2 ^ 53"
  define a where "a = round_double r"
  define p where "p = round_double (a * t)"
  have u: "0 \<le> u" "u \<le> 1" by (simp_all add: u_def)
  have e1: "\<bar>a - r\<bar> \<le> r * u"
    using round_double_error [of r] assms(1) by (simp add: a_def u_def)
  have a0: "0 \<le> a" using assms(1) by (simp add: a_def round_double_nonneg)
  have a_le: "a \<le> r * (1 + u)" using e1 by (simp add: algebra_simps abs_le_iff)
  have at0: "0 \<le> a * t" using a0 assms(2) by simp
  have e2: "\<bar>p - a * t\<bar> \<le> a * t * u"
    using round_double_error [of "a * t"] at0 by (simp add: p_def u_def)
  have "a * t \<le> r * (1 + u) * t" using a_le assms(2) by (rule mult_right_mono)
  then have b1: "a * t * u \<le> r * (1 + u) * t * u" using u(1) by (rule mult_right_mono)
  have "\<bar>a * t - r * t\<bar> = \<bar>a - r\<bar> * t"
    using assms(2) by (simp add: abs_mult flip: left_diff_distrib)
  also have "\<dots> \<le> r * u * t" using e1 assms(2) by (rule mult_right_mono)
  finally have b2: "\<bar>a * t - r * t\<bar> \<le> r * u * t" .
  have rt0: "0 \<le> r * t * u" using assms u(1) by simp
  have "r * t * u * u \<le> r * t * u * 1" using u(2) rt0 by (rule mult_left_mono)
  then have b3: "r * (1 + u) * t * u + r * u * t \<le> 3 * (r * t) * u"
    by (simp add: algebra_simps)
  have "\<bar>p - r * t\<bar> \<le> \<bar>p - a * t\<bar> + \<bar>a * t - r * t\<bar>" by simp
  with e2 b1 b2 b3 have "\<bar>p - r * t\<bar> \<le> 3 * (r * t) * u" by linarith
  then show ?thesis by (simp add: p_def a_def u_def)
qed

lemma scaled_quotient_error:
  assumes "0 < r" and "0 \<le> t"
  shows "\<bar>round_double (t / round_double r) - t / r\<bar> \<le> 3 * (t / r) / 2 ^ 53"
proof -
  define u :: rat where "u = 1 / 2 ^ 53"
  define a where "a = round_double r"
  define q where "q = t / a"
  define p where "p = round_double q"
  have u: "0 \<le> u" "u \<le> 1 / 3" by (simp_all add: u_def)
  have e1: "\<bar>a - r\<bar> \<le> r * u"
    using round_double_error [of r] assms(1) by (simp add: a_def u_def)
  have a0: "0 < a" using assms(1) by (simp add: a_def round_double_pos)
  have "r * u \<le> r * (1 / 3)" using u(2) assms(1) by (intro mult_left_mono) simp_all
  with e1 have a_ge: "r * (2 / 3) \<le> a" by (simp add: abs_le_iff)
  have q0: "0 \<le> q" using a0 assms(2) by (simp add: q_def)
  have e2: "\<bar>p - q\<bar> \<le> q * u"
    using round_double_error [of q] q0 by (simp add: p_def u_def)
  have "q - t / r = t * (r - a) / (a * r)"
    using a0 assms(1) by (simp add: q_def field_simps)
  then have "\<bar>q - t / r\<bar> = t * \<bar>r - a\<bar> / (a * r)"
    using a0 assms by (simp add: abs_mult)
  also have "\<dots> \<le> t * (r * u) / (a * r)"
  proof -
    have "t * \<bar>r - a\<bar> \<le> t * (r * u)"
      using e1 assms(2) by (intro mult_left_mono) (simp_all add: abs_minus_commute)
    moreover have "0 \<le> a * r" using a0 assms(1) by simp
    ultimately show ?thesis by (rule divide_right_mono)
  qed
  also have "\<dots> = q * u" using a0 assms(1) by (simp add: q_def)
  finally have e3: "\<bar>q - t / r\<bar> \<le> q * u" .
  have "t / a \<le> t / (r * (2 / 3))"
    using a_ge assms by (intro divide_left_mono) simp_all
  then have q_le: "q \<le> 3 / 2 * (t / r)" by (simp add: q_def)
  have "q * u \<le> 3 / 2 * (t / r) * u" using q_le u(1) by (rule mult_right_mono)
  moreover have "\<bar>p - t / r\<bar> \<le> \<bar>p - q\<bar> + \<bar>q - t / r\<bar>" by simp
  ultimately have "\<bar>p - t / r\<bar> \<le> 3 * (t / r) * u" using e2 e3 by linarith
  then show ?thesis by (simp add: p_def q_def a_def u_def)
qed

lemma floor_near_quotient:
  fixes N D :: int and p :: rat
  assumes "0 \<le> N" and "0 < D" and "N < 2 ^ 51"
    and "\<bar>p - of_int N / of_int D\<bar> \<le> 3 * (of_int N / of_int D) / 2 ^ 53"
  shows "N div D - 1 \<le> \<lfloor>p\<rfloor>" and "\<lfloor>p\<rfloor> \<le> N div D"
proof -
  define X :: rat where "X = of_int N / of_int D"
  define k where "k = N div D"
  have D0: "0 < (of_int D :: rat)" using assms(2) by simp
  have "(of_int N :: rat) < of_int (2 ^ 51)" using assms(3) by (simp only: of_int_less_iff)
  then have N51: "(of_int N :: rat) < 2 ^ 51" by simp
  have N0: "0 \<le> (of_int N :: rat)" using assms(1) by simp
  have "3 * X / 2 ^ 53 * of_int D = 3 * of_int N / 2 ^ 53"
    using D0 by (simp add: X_def)
  also have "\<dots> < 1" using N51 by simp
  finally have "3 * X / 2 ^ 53 < 1 / of_int D"
    using D0 by (simp add: less_divide_eq)
  with assms(4) have near: "\<bar>p - X\<bar> < 1 / of_int D" by (simp add: X_def)
  have "(1::rat) \<le> of_int D" using assms(2) by simp
  then have invD: "1 / of_int D \<le> (1::rat)" using D0 by (simp add: divide_le_eq)
  have klo: "of_int k \<le> X" unfolding k_def X_def
    using floor_divide_of_int_eq [of N D, where ?'a = rat] of_int_floor_le [of "(of_int N :: rat) / of_int D"]
    by simp
  have "N mod D \<le> D - 1" using assms(2) pos_mod_bound [of D N] by simp
  moreover have "N = D * k + N mod D" by (simp add: k_def)
  ultimately have "N \<le> D * k + D - 1" by linarith
  then have "(of_int N :: rat) \<le> of_int (D * k + D - 1)" by (simp only: of_int_le_iff)
  then have "(of_int N :: rat) \<le> (of_int k + 1) * of_int D - 1" by (simp add: algebra_simps)
  then have "X \<le> ((of_int k + 1) * of_int D - 1) / of_int D"
    unfolding X_def using D0 by (simp add: divide_right_mono)
  also have "\<dots> = of_int k + 1 - 1 / of_int D" using D0 by (simp add: field_simps)
  finally have khi: "X \<le> of_int k + 1 - 1 / of_int D" .
  from near khi have "p < of_int k + 1" by (simp add: abs_less_iff)
  then have "p < of_int (k + 1)" by simp
  then have "\<lfloor>p\<rfloor> < k + 1" by (simp only: floor_less_iff)
  then show "\<lfloor>p\<rfloor> \<le> N div D" by (simp add: k_def)
  from near klo invD have "of_int k - 1 \<le> p" by (simp add: abs_less_iff)
  then have "of_int (k - 1) \<le> p" by simp
  then have "k - 1 \<le> \<lfloor>p\<rfloor>" by (simp only: le_floor_iff)
  then show "N div D - 1 \<le> \<lfloor>p\<rfloor>" by (simp add: k_def)
qed

subsection \<open>\<open>add_watermark\<close>\<close>

lemma wmsize_double:
  assumes "n < 2 ^ 53"
  shows "int_of_float double_float (float_of_int double_float (int n) * Double (1 / 16))
         = int (n div 16)"
proof -
  have "int n < 2 ^ 53" using assms by (metis of_nat_less_iff of_nat_numeral of_nat_power)
  then have n: "\<bar>int n\<bar> < 2 ^ 53" by simp
  then have "round_double (of_int (int n)) = of_int (int n)"
    by (intro round_double_of_int) simp
  then have a: "round_double (of_nat n) = of_nat n" by simp
  have eq: "(of_int (int n) :: rat) * 2 powi (- 4) = of_nat n / 16"
    by (simp add: power_int_minus_divide)
  have b: "round_double (of_nat n / 16) = of_nat n / 16"
    using round_double_dyadic [OF n, of "- 4"] unfolding eq .
  have "\<lfloor>(of_int (int n) :: rat) / of_int 16\<rfloor> = int n div 16"
    by (rule floor_divide_of_int_eq)
  then have "\<lfloor>(of_nat n :: rat) / 16\<rfloor> = int (n div 16)"
    by (simp add: zdiv_int)
  then have c: "trunc (of_nat n / 16) = int (n div 16)"
    by (simp add: trunc_def)
  show ?thesis
    by (simp add: double_arith a) (simp only: b c)
qed

lemma float_of_nat_double:
  assumes "n < 2 ^ 53"
  shows "float_of_int double_float (int n) = Double (of_nat n)"
proof -
  have "int n < 2 ^ 53" using assms by (metis of_nat_less_iff of_nat_numeral of_nat_power)
  then have "round_double (of_int (int n)) = of_int (int n)"
    by (intro round_double_of_int) simp
  then show ?thesis by (simp add: double_arith)
qed

lemma aspect_gt_one:
  assumes "0 < w_0" and "w_0 < 2 ^ 24"
  shows "1 < round_double (of_nat h_0 / of_nat w_0) \<longleftrightarrow> w_0 < h_0"
proof
  assume "w_0 < h_0"
  then have "w_0 + 1 \<le> h_0" by simp
  then have "(of_nat (w_0 + 1) :: rat) \<le> of_nat h_0" by (simp only: of_nat_le_iff)
  then have "(of_nat w_0 + 1) / of_nat w_0 \<le> (of_nat h_0 / of_nat w_0 :: rat)"
    using assms(1) by (simp add: divide_right_mono)
  then have l1: "1 + 1 / of_nat w_0 \<le> (of_nat h_0 / of_nat w_0 :: rat)"
    using assms(1) by (simp add: field_simps)
  have "(of_nat w_0 :: rat) < of_nat (2 ^ 24)" using assms(2) by (simp only: of_nat_less_iff)
  then have "(of_nat w_0 :: rat) \<le> 2 ^ 24" by simp
  then have "1 / 2 ^ 24 \<le> 1 / (of_nat w_0 :: rat)"
    using assms(1) by (intro divide_left_mono) simp_all
  with l1 have l2: "1 + 1 / 2 ^ 24 \<le> (of_nat h_0 / of_nat w_0 :: rat)" by linarith
  have "round_double (of_int (2 ^ 24 + 1) * 2 powi (- 24)) = of_int (2 ^ 24 + 1) * 2 powi (- 24)"
    by (rule round_double_dyadic) simp
  then have ex: "round_double (1 + 1 / 2 ^ 24) = 1 + 1 / 2 ^ 24"
    by (simp add: power_int_minus_divide)
  have "round_double (1 + 1 / 2 ^ 24) \<le> round_double (of_nat h_0 / of_nat w_0)"
    using l2 by (intro round_double_mono_pos) simp_all
  then show "1 < round_double (of_nat h_0 / of_nat w_0)"
    unfolding ex by simp
next
  assume gt: "1 < round_double (of_nat h_0 / of_nat w_0)"
  show "w_0 < h_0"
  proof (rule ccontr)
    assume "\<not> w_0 < h_0"
    then have "h_0 \<le> w_0" by simp
    then have "(of_nat h_0 :: rat) \<le> of_nat w_0" by (simp only: of_nat_le_iff)
    then have "(of_nat h_0 / of_nat w_0 :: rat) \<le> 1"
      using assms(1) by (simp add: divide_le_eq)
    then have "round_double (of_nat h_0 / of_nat w_0) \<le> round_double 1"
      by (intro round_double_mono_nonneg) simp_all
    with gt show False by (simp add: round_double_one)
  qed
qed

lemma scaled_side:
  fixes s :: int and n d :: nat
  assumes "0 \<le> s" and "s < 2 ^ 20" and "0 < n" and "n < 2 ^ 24" and "0 < d" and "d < 2 ^ 24"
  defines "r \<equiv> (of_nat n / of_nat d :: rat)"
  shows "(1 \<le> round_double r \<longrightarrow> s \<le> trunc (round_double (round_double r * of_int s)))
         \<and> s * int n div int d - 1 \<le> trunc (round_double (round_double r * of_int s))
         \<and> trunc (round_double (round_double r * of_int s)) \<le> s * int n div int d"
    and "(round_double r \<le> 1 \<longrightarrow> s \<le> trunc (round_double (of_int s / round_double r)))
         \<and> s * int d div int n - 1 \<le> trunc (round_double (of_int s / round_double r))
         \<and> trunc (round_double (of_int s / round_double r)) \<le> s * int d div int n"
proof -
  have r0: "0 < r" using assms(3,5) by (simp add: r_def)
  have a0: "0 < round_double r" using r0 by (rule round_double_pos)
  have s0: "0 \<le> (of_int s :: rat)" using assms(1) by simp
  have sx: "round_double (of_int s) = of_int s"
    using assms(1,2) by (intro round_double_of_int) simp
  have "int n < 2 ^ 24" "int d < 2 ^ 24"
    using assms(4,6) by (metis of_nat_less_iff of_nat_numeral of_nat_power)+
  then have "s * int n \<le> 2 ^ 20 * 2 ^ 24" "s * int d \<le> 2 ^ 20 * 2 ^ 24"
    using assms(1,2) by (intro mult_mono; simp)+
  then have N: "s * int n < 2 ^ 51" "s * int d < 2 ^ 51" by simp_all
  have N0: "0 \<le> s * int n" "0 \<le> s * int d" using assms(1) by simp_all
  have D0: "0 < int d" "0 < int n" using assms(3,5) by simp_all
  let ?p = "round_double (round_double r * of_int s)"
  have p0: "0 \<le> ?p" using a0 s0 by (intro round_double_nonneg) simp
  have "r * of_int s = of_int (s * int n) / of_int (int d)" by (simp add: r_def)
  with scaled_product_error [of r "of_int s"] r0 s0
  have "\<bar>?p - of_int (s * int n) / of_int (int d)\<bar>
        \<le> 3 * (of_int (s * int n) / of_int (int d)) / 2 ^ 53"
    by simp
  from floor_near_quotient [OF N0(1) D0(1) N(1) this]
  have b1: "s * int n div int d - 1 \<le> trunc ?p" "trunc ?p \<le> s * int n div int d"
    using p0 by (simp_all add: trunc_nonneg)
  have c1: "s \<le> trunc ?p" if "1 \<le> round_double r"
  proof -
    have "1 * of_int s \<le> round_double r * of_int s" using that s0 by (rule mult_right_mono)
    then have "round_double (of_int s) \<le> ?p"
      using s0 by (intro round_double_mono_nonneg) simp_all
    then show ?thesis using p0 by (simp add: sx trunc_nonneg le_floor_iff)
  qed
  from b1 c1 show "(1 \<le> round_double r \<longrightarrow> s \<le> trunc ?p)
         \<and> s * int n div int d - 1 \<le> trunc ?p \<and> trunc ?p \<le> s * int n div int d"
    by simp
  let ?q = "round_double (of_int s / round_double r)"
  have q0: "0 \<le> ?q" using a0 s0 by (intro round_double_nonneg) simp
  have "of_int s / r = of_int (s * int d) / of_int (int n)" by (simp add: r_def)
  with scaled_quotient_error [of r "of_int s"] r0 s0
  have "\<bar>?q - of_int (s * int d) / of_int (int n)\<bar>
        \<le> 3 * (of_int (s * int d) / of_int (int n)) / 2 ^ 53"
    by simp
  from floor_near_quotient [OF N0(2) D0(2) N(2) this]
  have b2: "s * int d div int n - 1 \<le> trunc ?q" "trunc ?q \<le> s * int d div int n"
    using q0 by (simp_all add: trunc_nonneg)
  have c2: "s \<le> trunc ?q" if "round_double r \<le> 1"
  proof -
    have "of_int s / 1 \<le> of_int s / round_double r"
      using that a0 s0 by (intro divide_left_mono) simp_all
    then have "round_double (of_int s) \<le> ?q"
      using s0 by (intro round_double_mono_nonneg) simp_all
    then show ?thesis using q0 by (simp add: sx trunc_nonneg le_floor_iff)
  qed
  from b2 c2 show "(round_double r \<le> 1 \<longrightarrow> s \<le> trunc ?q)
         \<and> s * int d div int n - 1 \<le> trunc ?q \<and> trunc ?q \<le> s * int d div int n"
    by simp
qed

text \<open>
  C3 (counterexample): on a 1024 by 1024 image, a watermark 100 wide and 200 high
  is resized to 64 by 128 and pasted at (955, 891): its larger scaled dimension
  is 128, not \<open>int(1024 / 16) = 64\<close>.
\<close>

theorem add_watermark_tall_counterexample:
  "add_watermark double_float [1024, 1024, 3] (100, 200) ''RGBA'' (Double (1 / 16)) 5
     = Inr \<lparr>pasted_size = (64, 128), paste_box = (955, 891), paste_mask = True\<rparr>
   \<and> int_of_float double_float (float_of_int double_float (max 1024 1024) * Double (1 / 16)) = 64
   \<and> max (64 :: int) 128 \<noteq> 64"
proof -
  have r: "round_double 2 = 2" "round_double 64 = 64" "round_double 100 = 100"
    "round_double 128 = 128" "round_double 200 = 200" "round_double 1024 = 1024"
    by (simp_all add: round_double_numeral)
  show ?thesis
    by (simp add: add_watermark_def double_arith r trunc_def resize_def paste_resized_def)
qed

text \<open>
  C3 (amended): for an image of height \<open>H\<close> and width \<open>W\<close> and a watermark of
  positive size \<open>(w_0, h_0)\<close>, all sides below \<open>2^24\<close> pixels, \<open>add_watermark\<close> with
  relative size 1/16 and margin 5 raises the \<open>ValueError\<close> of \<open>resize\<close> when
  \<open>max(H, W) < 16\<close>; otherwise it resizes the watermark so that its smaller scaled
  dimension is \<open>s = int(max(H, W) / 16)\<close> (the width for a watermark higher than
  wide, else the height; 64 pixels when \<open>max(H, W) = 1024\<close>; both dimensions for a
  square watermark), the other dimension being the length that preserves the
  aspect ratio, \<open>s * h_0 / w_0\<close> (resp. \<open>s * w_0 / h_0\<close>), rounded down, or one
  pixel less (the rounding of the two float operations), and pastes it at the
  offset \<open>(W - w - 5, H - h - 5)\<close>, \<open>w\<close> and \<open>h\<close> being the scaled width and height.
\<close>

theorem add_watermark_smaller_side:
  assumes "0 < w_0" and "0 < h_0" and "w_0 < 2 ^ 24" and "h_0 < 2 ^ 24" and "max H W < 2 ^ 24"
  shows "(max H W < 16 \<longrightarrow>
            add_watermark double_float [H, W, C] (w_0, h_0) watermark_mode (Double (1 / 16)) 5
              = Inl (ValueError ResizeSize))
       \<and> (16 \<le> max H W \<longrightarrow>
            (\<exists>w h. add_watermark double_float [H, W, C] (w_0, h_0) watermark_mode
                      (Double (1 / 16)) 5
                    = Inr \<lparr>pasted_size = (w, h), paste_box = (int W - w - 5, int H - h - 5),
                           paste_mask = (watermark_mode = ''RGBA'' \<or> watermark_mode = ''LA'')\<rparr>
                  \<and> min w h = int (max H W div 16)
                  \<and> (if w_0 < h_0
                      then w = int (max H W div 16)
                           \<and> (h = int (max H W div 16) * int h_0 div int w_0
                                \<or> h = int (max H W div 16) * int h_0 div int w_0 - 1)
                      else h = int (max H W div 16)
                           \<and> (w = int (max H W div 16) * int w_0 div int h_0
                                \<or> w = int (max H W div 16) * int w_0 div int h_0 - 1))
                  \<and> (w_0 = h_0 \<longrightarrow> w = h)
                  \<and> (max H W = 1024 \<longrightarrow> min w h = 64)))"
proof -
  define s where "s = int (max H W div 16)"
  define a where "a = round_double (of_nat h_0 / of_nat w_0)"
  let ?res = "add_watermark double_float [H, W, C] (w_0, h_0) watermark_mode (Double (1 / 16)) 5"
  have s0: "0 \<le> s" by (simp add: s_def)
  have "max H W < 2 ^ 20 * 16" using assms(5) by simp
  then have "max H W div 16 < 2 ^ 20" by (rule less_mult_imp_div_less)
  then have s20: "s < 2 ^ 20"
    unfolding s_def by (metis of_nat_less_iff of_nat_numeral of_nat_power)
  have s_small: "s < 1" if "max H W < 16"
    using that by (simp add: s_def)
  have s64: "s = 64" if "max H W = 1024"
    using that by (simp add: s_def)
  have s_big: "1 \<le> s" if "16 \<le> max H W"
    using that by (simp add: s_def Suc_le_eq div_greater_zero_iff)
  have wm: "int_of_float double_float (float_of_int double_float (int (max H W)) * Double (1 / 16)) = s"
    unfolding s_def using assms(5) by (intro wmsize_double) simp
  have asp: "float_of_int double_float (int h_0) / float_of_int double_float (int w_0) = Double a"
    using assms(3,4) by (simp add: float_of_nat_double divide_double_def a_def)
  have fs: "float_of_int double_float s = Double (of_int s)"
    using s0 s20 by (simp add: float_of_int_double round_double_of_int)
  have gt: "1 < Double a \<longleftrightarrow> w_0 < h_0"
    using aspect_gt_one [OF assms(1,3), of h_0] by (simp add: less_double_def one_double_def a_def)
  have apos: "0 < a"
    unfolding a_def using assms(1,2) by (intro round_double_pos) simp
  then have nz: "Double a \<noteq> 0" by (simp add: zero_double_def)
  note side = scaled_side [OF s0 s20 assms(2,4,1,3), folded a_def]
  show ?thesis
  proof (cases "w_0 < h_0")
    case True
    define hh where "hh = trunc (round_double (a * of_int s))"
    have hhf: "int_of_float double_float (Double a * float_of_int double_float s) = hh"
      by (simp add: fs times_double_def int_of_float_double hh_def)
    have res: "?res = (case resize (s, hh) of Inl e \<Rightarrow> Inl e
                       | Inr resized \<Rightarrow> Inr (paste_resized watermark_mode H W 5 resized))"
      using True gt assms(1)
      by (simp add: add_watermark_def Let_def wm asp hhf)
    from True gt have "1 \<le> a" by (simp add: less_double_def one_double_def)
    with side(1) have hh: "s \<le> hh" "s * int h_0 div int w_0 - 1 \<le> hh"
      "hh \<le> s * int h_0 div int w_0"
      by (simp_all add: hh_def)
    then have hh2: "hh = s * int h_0 div int w_0 \<or> hh = s * int h_0 div int w_0 - 1"
      by linarith
    have small: "?res = Inl (ValueError ResizeSize)" if "max H W < 16"
      using s_small [OF that] by (simp add: res resize_def)
    have big: "?res = Inr \<lparr>pasted_size = (s, hh), paste_box = (int W - s - 5, int H - hh - 5),
                 paste_mask = (watermark_mode = ''RGBA'' \<or> watermark_mode = ''LA'')\<rparr>"
      if "16 \<le> max H W"
      using s_big [OF that] hh(1) by (simp add: res resize_def paste_resized_def)
    have m: "min s hh = s" using hh(1) by simp
    have m64: "min s hh = 64" if "max H W = 1024"
      using s64 [OF that] m by simp
    have "\<exists>w h. ?res = Inr \<lparr>pasted_size = (w, h), paste_box = (int W - w - 5, int H - h - 5),
                 paste_mask = (watermark_mode = ''RGBA'' \<or> watermark_mode = ''LA'')\<rparr>
              \<and> min w h = s
              \<and> (if w_0 < h_0
                  then w = s \<and> (h = s * int h_0 div int w_0 \<or> h = s * int h_0 div int w_0 - 1)
                  else h = s \<and> (w = s * int w_0 div int h_0 \<or> w = s * int w_0 div int h_0 - 1))
              \<and> (w_0 = h_0 \<longrightarrow> w = h)
              \<and> (max H W = 1024 \<longrightarrow> min w h = 64)"
      if "16 \<le> max H W"
    proof (rule exI [of _ s], rule exI [of _ hh], intro conjI impI)
      show "?res = Inr \<lparr>pasted_size = (s, hh), paste_box = (int W - s - 5, int H - hh - 5),
                 paste_mask = (watermark_mode = ''RGBA'' \<or> watermark_mode = ''LA'')\<rparr>"
        by (rule big [OF that])
      show "min s hh = s" by (rule m)
      show "if w_0 < h_0
            then s = s \<and> (hh = s * int h_0 div int w_0 \<or> hh = s * int h_0 div int w_0 - 1)
            else hh = s \<and> (s = s * int w_0 div int h_0 \<or> s = s * int w_0 div int h_0 - 1)"
        using True hh2 by simp
      show "s = hh" if "w_0 = h_0" using that True by simp
      show "min s hh = 64" if "max H W = 1024" by (rule m64 [OF that])
    qed
    then have ex: "16 \<le> max H W \<longrightarrow>
              (\<exists>w h. ?res = Inr \<lparr>pasted_size = (w, h), paste_box = (int W - w - 5, int H - h - 5),
                 paste_mask = (watermark_mode = ''RGBA'' \<or> watermark_mode = ''LA'')\<rparr>
              \<and> min w h = s
              \<and> (if w_0 < h_0
                  then w = s \<and> (h = s * int h_0 div int w_0 \<or> h = s * int h_0 div int w_0 - 1)
                  else h = s \<and> (w = s * int w_0 div int h_0 \<or> w = s * int w_0 div int h_0 - 1))
              \<and> (w_0 = h_0 \<longrightarrow> w = h)
              \<and> (max H W = 1024 \<longrightarrow> min w h = 64))"
      by (rule impI)
    from small have sm: "max H W < 16 \<longrightarrow> ?res = Inl (ValueError ResizeSize)"
      by (rule impI)
    from sm ex show ?thesis unfolding s_def by (rule conjI)
  next
    case False
    define ww where "ww = trunc (round_double (of_int s / a))"
    have wwf: "int_of_float double_float (float_of_int double_float s / Double a) = ww"
      by (simp add: fs divide_double_def int_of_float_double ww_def)
    have res: "?res = (case resize (ww, s) of Inl e \<Rightarrow> Inl e
                       | Inr resized \<Rightarrow> Inr (paste_resized watermark_mode H W 5 resized))"
      using False gt nz assms(1)
      by (simp add: add_watermark_def Let_def wm asp wwf)
    from False gt have "a \<le> 1" by (simp add: less_double_def one_double_def)
    with side(2) have ww: "s \<le> ww" "s * int w_0 div int h_0 - 1 \<le> ww"
      "ww \<le> s * int w_0 div int h_0"
      by (simp_all add: ww_def)
    then have ww2: "ww = s * int w_0 div int h_0 \<or> ww = s * int w_0 div int h_0 - 1"
      by linarith
    have sq: "ww = s" if "w_0 = h_0"
    proof -
      have "a = 1" using that assms(1) by (simp add: a_def round_double_one)
      then show ?thesis
        using s0 s20 by (simp add: ww_def round_double_of_int trunc_of_int)
    qed
    have small: "?res = Inl (ValueError ResizeSize)" if "max H W < 16"
      using s_small [OF that] by (simp add: res resize_def)
    have big: "?res = Inr \<lparr>pasted_size = (ww, s), paste_box = (int W - ww - 5, int H - s - 5),
                 paste_mask = (watermark_mode = ''RGBA'' \<or> watermark_mode = ''LA'')\<rparr>"
      if "16 \<le> max H W"
      using s_big [OF that] ww(1) by (simp add: res resize_def paste_resized_def)
    have m: "min ww s = s" using ww(1) by simp
    have m64: "min ww s = 64" if "max H W = 1024"
      using s64 [OF that] m by simp
    have "\<exists>w h. ?res = Inr \<lparr>pasted_size = (w, h), paste_box = (int W - w - 5, int H - h - 5),
                 paste_mask = (watermark_mode = ''RGBA'' \<or> watermark_mode = ''LA'')\<rparr>
              \<and> min w h = s
              \<and> (if w_0 < h_0
                  then w = s \<and> (h = s * int h_0 div int w_0 \<or> h = s * int h_0 div int w_0 - 1)
                  else h = s \<and> (w = s * int w_0 div int h_0 \<or> w = s * int w_0 div int h_0 - 1))
              \<and> (w_0 = h_0 \<longrightarrow> w = h)
              \<and> (max H W = 1024 \<longrightarrow> min w h = 64)"
      if "16 \<le> max H W"
    proof (rule exI [of _ ww], rule exI [of _ s], intro conjI impI)
      show "?res = Inr \<lparr>pasted_size = (ww, s), paste_box = (int W - ww - 5, int H - s - 5),
                 paste_mask = (watermark_mode = ''RGBA'' \<or> watermark_mode = ''LA'')\<rparr>"
        by (rule big [OF that])
      show "min ww s = s" by (rule m)
      show "if w_0 < h_0
            then ww = s \<and> (s = s * int h_0 div int w_0 \<or> s = s * int h_0 div int w_0 - 1)
            else s = s \<and> (ww = s * int w_0 div int h_0 \<or> ww = s * int w_0 div int h_0 - 1)"
        using False ww2 by simp
      show "ww = s" if "w_0 = h_0" by (rule sq [OF that])
      show "min ww s = 64" if "max H W = 1024" by (rule m64 [OF that])
    qed
    then have ex: "16 \<le> max H W \<longrightarrow>
              (\<exists>w h. ?res = Inr \<lparr>pasted_size = (w, h), paste_box = (int W - w - 5, int H - h - 5),
                 paste_mask = (watermark_mode = ''RGBA'' \<or> watermark_mode = ''LA'')\<rparr>
              \<and> min w h = s
              \<and> (if w_0 < h_0
                  then w = s \<and> (h = s * int h_0 div int w_0 \<or> h = s * int h_0 div int w_0 - 1)
                  else h = s \<and> (w = s * int w_0 div int h_0 \<or> w = s * int w_0 div int h_0 - 1))
              \<and> (w_0 = h_0 \<longrightarrow> w = h)
              \<and> (max H W = 1024 \<longrightarrow> min w h = 64))"
      by (rule impI)
    from small have sm: "max H W < 16 \<longrightarrow> ?res = Inl (ValueError ResizeSize)"
      by (rule impI)
    from sm ex show ?thesis unfolding s_def by (rule conjI)
  qed
qed

theorem add_watermark_smaller_side_witness:
  "add_watermark double_float [512, 512, 3] (930, 160) ''RGBA'' (Double (1 / 16)) 5
     = Inr \<lparr>pasted_size = (185, 32), paste_box = (322, 475), paste_mask = True\<rparr>
   \<and> min (185 :: int) 32 = int (max 512 512 div 16)
   \<and> (185 :: int) = int (max 512 512 div 16) * 930 div 160 - 1"
proof -
  have r: "round_double 32 = 32" "round_double 160 = 160" "round_double 512 = 512"
    "round_double 930 = 930"
    by (simp_all add: round_double_numeral)
  have a: "round_double (16 / 93) = 3099251356470019 / 18014398509481984"
    by code_simp
  have b: "round_double (576460752303423488 / 3099251356470019)
           = 6544293208522751 / 35184372088832"
    by code_simp
  have c: "trunc (6544293208522751 / 35184372088832) = 185"
    by code_simp
  have "add_watermark double_float [512, 512, 3] (930, 160) ''RGBA'' (Double (1 / 16)) 5
     = Inr \<lparr>pasted_size = (185, 32), paste_box = (322, 475), paste_mask = True\<rparr>"
    by (simp add: add_watermark_def Let_def double_arith r a b c trunc_numeral resize_def
        paste_resized_def)
  with add_watermark_smaller_side [of 930 160 512 512 3 "''RGBA''"] show ?thesis
    by simp
qed

subsection \<open>\<open>prepare_video\<close>\<close>

lemma linspace_int_double:
  assumes "0 \<le> num"
  shows "linspace_int double_float start stop num
         = Inr (map (\<lambda>i. int_of_float double_float
                             (float_of_int double_float i
                                * ((float_of_int double_float stop - float_of_int double_float start)
                                   / float_of_int double_float num)
                              + float_of_int double_float start))
                  [0..num - 1])"
proof -
  define delta where
    "delta = float_of_int double_float stop - float_of_int double_float start"
  define step where "step = delta / float_of_int double_float num"
  have "(if step = 0 then (float_of_int double_float i / float_of_int double_float num) * delta
         else float_of_int double_float i * step) = float_of_int double_float i * step"
    if "i \<in> set [0..num - 1]" for i
  proof (cases "step = 0")
    case True
    from that have "0 < num" by simp
    then have "0 < (of_int num :: rat)" by simp
    then have npos: "0 < round_double (of_int num)" by (rule round_double_pos)
    from True have "round_double (to_rat delta / round_double (of_int num)) = 0"
      by (simp add: step_def double_arith)
    then have "to_rat delta / round_double (of_int num) = 0" by (rule round_double_eq_zero)
    with npos have "to_rat delta = 0" by simp
    then have "delta = 0" by (cases delta) (simp add: zero_double_def)
    with True show ?thesis by (simp add: double_arith round_double_zero)
  next
    case False
    then show ?thesis by simp
  qed
  then have mapeq: "map (\<lambda>i. int_of_float double_float
                    ((if step = 0
                      then (float_of_int double_float i / float_of_int double_float num) * delta
                      else float_of_int double_float i * step)
                     + float_of_int double_float start)) [0..num - 1]
             = map (\<lambda>i. int_of_float double_float
                          (float_of_int double_float i * step + float_of_int double_float start))
                 [0..num - 1]"
    by (intro map_cong refl) simp
  have L: "linspace_int double_float start stop num
           = Inr (map (\<lambda>i. int_of_float double_float
                    ((if step = 0
                      then (float_of_int double_float i / float_of_int double_float num) * delta
                      else float_of_int double_float i * step)
                     + float_of_int double_float start)) [0..num - 1])"
    using assms unfolding linspace_int_def Let_def delta_def step_def by simp
  show ?thesis
    unfolding L mapeq by (simp only: step_def delta_def)
qed

lemma linspace_element:
  fixes sf ef num i :: int
  assumes "0 \<le> sf" and "sf \<le> ef" and "ef \<le> 2 ^ 26" and "0 \<le> i" and "i < num"
    and "num \<le> 2 ^ 26"
  defines "y \<equiv> round_double
                 (round_double (of_int i * round_double ((of_int ef - of_int sf) / of_int num))
                  + of_int sf)"
  shows "sf \<le> trunc y" and "trunc y \<le> ef" and "sf < ef \<Longrightarrow> trunc y < ef"
    and "i = 0 \<Longrightarrow> trunc y = sf"
proof -
  define q :: rat where "q = (of_int ef - of_int sf) / of_int num"
  define st where "st = round_double q"
  define a where "a = round_double (of_int i * st)"
  have y: "y = round_double (a + of_int sf)"
    by (simp add: y_def a_def st_def q_def)
  have n0: "0 < (of_int num :: rat)" using assms(4,5) by simp
  have d0: "0 \<le> (of_int ef - of_int sf :: rat)" using assms(2) by simp
  have q0: "0 \<le> q" using n0 d0 by (simp add: q_def)
  have st0: "0 \<le> st" unfolding st_def using q0 by (rule round_double_nonneg)
  have i0: "0 \<le> (of_int i :: rat)" using assms(4) by simp
  have x0: "0 \<le> of_int i * st" using i0 st0 by simp
  have a0: "0 \<le> a" unfolding a_def using x0 by (rule round_double_nonneg)
  have sf0: "0 \<le> (of_int sf :: rat)" using assms(1) by simp
  have sfx: "round_double (of_int sf) = of_int sf"
    using assms(1,2,3) by (intro round_double_of_int) simp
  have "round_double (of_int sf) \<le> y"
    unfolding y using sf0 a0 by (intro round_double_mono_nonneg) simp_all
  then have lo: "of_int sf \<le> y" by (simp only: sfx)
  then have y0: "0 \<le> y" using sf0 by simp
  then have t: "trunc y = \<lfloor>y\<rfloor>" by (rule trunc_nonneg)
  show "sf \<le> trunc y" using lo by (simp add: t le_floor_iff)
  have eq: "trunc y = sf" if "a = 0"
    using that by (simp add: y sfx trunc_of_int)
  show "trunc y = sf" if "i = 0"
    using that by (intro eq) (simp add: a_def round_double_zero)
  have strict: "trunc y < ef" if "sf < ef"
  proof -
    define d :: rat where "d = of_int ef - of_int sf"
    define z where "z = of_int i * q"
    define x where "x = of_int i * st"
    have "1 \<le> ef - sf" using that by simp
    then have "(of_int 1 :: rat) \<le> of_int (ef - sf)" by (simp only: of_int_le_iff)
    then have d1: "1 \<le> d" by (simp add: d_def)
    have "(of_int num :: rat) \<le> of_int (2 ^ 26)" using assms(6) by (simp only: of_int_le_iff)
    then have n26: "(of_int num :: rat) \<le> 2 ^ 26" by simp
    have "d / 2 ^ 26 \<le> d / of_int num"
      using n26 n0 d1 by (intro divide_left_mono) simp_all
    then have qlo: "d / 2 ^ 26 \<le> q" by (simp add: q_def d_def)
    have "of_int i \<le> (of_int (num - 1) :: rat)" using assms(5) by (simp only: of_int_le_iff)
    then have "of_int i * q \<le> of_int (num - 1) * q" using q0 by (rule mult_right_mono)
    also have "of_int (num - 1) * q = d - q"
      using n0 by (simp add: q_def d_def field_simps)
    finally have z1: "z \<le> d - q" by (simp add: z_def)
    have "\<bar>st - q\<bar> \<le> \<bar>q\<bar> / 2 ^ 53"
      unfolding st_def by (rule round_double_error)
    with q0 have "st \<le> q + q / 2 ^ 53" by linarith
    then have "of_int i * st \<le> of_int i * (q + q / 2 ^ 53)"
      using i0 by (rule mult_left_mono)
    also have "of_int i * (q + q / 2 ^ 53) = z + z / 2 ^ 53"
      by (simp add: z_def algebra_simps)
    finally have x1: "x \<le> z + z / 2 ^ 53" by (simp only: x_def)
    have "\<bar>a - x\<bar> \<le> \<bar>x\<bar> / 2 ^ 53"
      unfolding a_def x_def by (rule round_double_error)
    with x0 have a1: "a \<le> x + x / 2 ^ 53" unfolding x_def [symmetric] by linarith
    have z0: "0 \<le> z" using i0 q0 by (simp add: z_def)
    from a1 x1 z1 qlo d1 z0 have "a \<le> d - 1 / 2 ^ 27" by simp
    then have le: "a + of_int sf \<le> of_int ef - 1 / 2 ^ 27" by (simp add: d_def)
    have "\<bar>ef * 2 ^ 27 - 1\<bar> < 2 ^ 53" using assms(1,2,3) that by simp
    from round_double_dyadic [OF this, of "- 27"]
    have wx: "round_double (of_int ef - 1 / 2 ^ 27) = of_int ef - 1 / 2 ^ 27"
      by (simp add: power_int_minus_divide algebra_simps)
    have "0 \<le> a + of_int sf" using a0 sf0 by simp
    then have "y \<le> round_double (of_int ef - 1 / 2 ^ 27)"
      unfolding y using le by (rule round_double_mono_nonneg)
    then have "y \<le> of_int ef - 1 / 2 ^ 27" by (simp only: wx)
    then have "y < of_int ef" by simp
    then show ?thesis by (simp add: t floor_less_iff)
  qed
  then show "sf < ef \<Longrightarrow> trunc y < ef" .
  show "trunc y \<le> ef"
  proof (cases "sf < ef")
    case True
    with strict show ?thesis by simp
  next
    case False
    with assms(2) have e: "sf = ef" by simp
    then have "a = 0" by (simp add: a_def st_def q_def round_double_zero)
    with eq e show ?thesis by simp
  qed
qed

lemma sample_in_range_double:
  fixes sf ef num i :: int
  assumes "0 \<le> sf" and "sf \<le> ef" and "ef \<le> 2 ^ 26" and "0 \<le> i" and "i < num"
    and "num \<le> 2 ^ 26"
  defines "k \<equiv> int_of_float double_float
                 (float_of_int double_float i
                    * ((float_of_int double_float ef - float_of_int double_float sf)
                       / float_of_int double_float num)
                  + float_of_int double_float sf)"
  shows "sf \<le> k" and "k \<le> ef" and "sf < ef \<Longrightarrow> k < ef" and "i = 0 \<Longrightarrow> k = sf"
proof -
  have x: "round_double (of_int sf) = of_int sf" "round_double (of_int ef) = of_int ef"
    "round_double (of_int i) = of_int i" "round_double (of_int num) = of_int num"
    "round_double (of_int (ef - sf)) = of_int (ef - sf)"
    using assms(1-6) by (intro round_double_of_int; simp)+
  have x5: "round_double (of_int ef - of_int sf) = of_int ef - of_int sf"
    using x(5) by simp
  have k: "k = trunc (round_double
                 (round_double (of_int i * round_double ((of_int ef - of_int sf) / of_int num))
                  + of_int sf))"
    by (simp add: k_def double_arith x(1-4) x5)
  note el = linspace_element [OF assms(1-6)]
  show "sf \<le> k" unfolding k by (rule el(1))
  show "k \<le> ef" unfolding k by (rule el(2))
  show "sf < ef \<Longrightarrow> k < ef" unfolding k by (rule el(3))
  show "i = 0 \<Longrightarrow> k = sf" unfolding k by (rule el(4))
qed

lemma resolved_end_t_double:
  "to_rat (resolved_end_t double_float n_frames initial_fps end_t)
   = (if end_t = - 1 then round_double (round_double (of_nat n_frames) / to_rat initial_fps)
      else min (round_double (round_double (of_nat n_frames) / to_rat initial_fps)) (to_rat end_t))"
  by (simp add: resolved_end_t_def Let_def double_arith min_def)

lemma prepare_video_double:
  fixes initial_fps start_t end_t :: double and output_fps :: int and n_frames :: nat
  defines "F \<equiv> resolved_output_fps double_float initial_fps output_fps"
    and "E \<equiv> resolved_end_t double_float n_frames initial_fps end_t"
  defines "sf \<equiv> int_of_float double_float (start_t * initial_fps)"
    and "ef \<equiv> int_of_float double_float (E * initial_fps)"
    and "num \<equiv> int_of_float double_float ((E - start_t) * float_of_int double_float F)"
  assumes "initial_fps \<noteq> 0" and "0 \<le> start_t" and "start_t < E" and "0 < F"
  shows "prepare_video_sample_idx double_float n_frames initial_fps start_t end_t output_fps
         = Inr (map (\<lambda>i. int_of_float double_float
                             (float_of_int double_float i
                                * ((float_of_int double_float ef - float_of_int double_float sf)
                                   / float_of_int double_float num)
                              + float_of_int double_float sf))
                  [0..num - 1], F)"
    and "0 \<le> sf" and "sf \<le> ef" and "0 \<le> num"
proof -
  define D where "D = round_double (round_double (of_nat n_frames) / to_rat initial_fps)"
  have s0: "0 \<le> to_rat start_t" using assms(7) by (simp add: double_arith)
  have sE: "to_rat start_t < to_rat E" using assms(8) by (simp add: double_arith)
  have "to_rat E \<le> D"
    unfolding E_def D_def resolved_end_t_double by simp
  with s0 sE have Dpos: "0 < D" by simp
  have fps: "0 < to_rat initial_fps"
  proof (rule ccontr)
    assume "\<not> 0 < to_rat initial_fps"
    then have "to_rat initial_fps \<le> 0" by simp
    moreover have "0 \<le> round_double (of_nat n_frames)" by (intro round_double_nonneg) simp
    ultimately have "round_double (of_nat n_frames) / to_rat initial_fps \<le> 0"
      by (rule divide_nonneg_nonpos [rotated])
    then have "D \<le> 0" unfolding D_def by (rule round_double_nonpos)
    with Dpos show False by simp
  qed
  have p1: "0 \<le> to_rat start_t * to_rat initial_fps" using s0 fps by simp
  have p2: "to_rat start_t * to_rat initial_fps \<le> to_rat E * to_rat initial_fps"
    using sE fps by (simp add: mult_right_mono)
  have r1: "0 \<le> round_double (to_rat start_t * to_rat initial_fps)"
    using p1 by (rule round_double_nonneg)
  have r2: "round_double (to_rat start_t * to_rat initial_fps) \<le> round_double (to_rat E * to_rat initial_fps)"
    using p1 p2 by (rule round_double_mono_nonneg)
  have sf: "sf = \<lfloor>round_double (to_rat start_t * to_rat initial_fps)\<rfloor>"
    using r1 by (simp add: sf_def double_arith trunc_nonneg)
  have ef: "ef = \<lfloor>round_double (to_rat E * to_rat initial_fps)\<rfloor>"
    using r1 r2 by (simp add: ef_def double_arith trunc_nonneg)
  show sf0: "0 \<le> sf" using r1 by (simp add: sf)
  show "sf \<le> ef" unfolding sf ef using r2 by (rule floor_mono)
  have "0 \<le> round_double (to_rat E - to_rat start_t)"
    using sE by (intro round_double_nonneg) simp
  moreover have "0 \<le> round_double (of_int F)"
    using assms(9) by (intro round_double_nonneg) simp
  ultimately have "0 \<le> round_double (to_rat E - to_rat start_t) * round_double (of_int F)"
    by simp
  then have "0 \<le> round_double (round_double (to_rat E - to_rat start_t) * round_double (of_int F))"
    by (rule round_double_nonneg)
  then show num0: "0 \<le> num"
    by (simp add: num_def double_arith trunc_nonneg)
  have "prepare_video_sample_idx double_float n_frames initial_fps start_t end_t output_fps
        = (case linspace_int double_float sf ef num of
             Inl e \<Rightarrow> Inl e | Inr sample_idx \<Rightarrow> Inr (sample_idx, F))"
    using assms(6-9)
    by (simp add: prepare_video_sample_idx_def F_def [symmetric] E_def [symmetric] Let_def
        sf_def ef_def num_def)
  then show "prepare_video_sample_idx double_float n_frames initial_fps start_t end_t output_fps
         = Inr (map (\<lambda>i. int_of_float double_float
                             (float_of_int double_float i
                                * ((float_of_int double_float ef - float_of_int double_float sf)
                                   / float_of_int double_float num)
                              + float_of_int double_float sf))
                  [0..num - 1], F)"
    by (simp only: linspace_int_double [OF num0] sum.case)
qed

lemma prepare_video_rejects:
  fixes initial_fps start_t end_t :: double
  assumes "initial_fps \<noteq> 0"
    and "\<not> (0 \<le> start_t
            \<and> start_t < resolved_end_t double_float n_frames initial_fps end_t
            \<and> 0 < resolved_output_fps double_float initial_fps output_fps)"
  shows "prepare_video_sample_idx double_float n_frames initial_fps start_t end_t output_fps
         = Inl AssertionError"
  using assms by (auto simp: prepare_video_sample_idx_def Let_def)

text \<open>
  C7 (counterexample): a video of 300 frames at 29.97 frames per second, called
  with \<open>start_t = 0\<close>, \<open>end_t = -1\<close> and \<open>output_fps = -1\<close>: \<open>output_fps\<close> is resolved to
  29, not to the source rate, and 290 indices are sampled, not
  \<open>(end_t - start_t) * output_fps\<close>, which is no whole number.
\<close>

theorem prepare_video_ntsc_counterexample:
  "resolved_output_fps double_float (Double (round_double (2997 / 100))) (- 1) = 29
   \<and> float_of_int double_float
         (resolved_output_fps double_float (Double (round_double (2997 / 100))) (- 1))
       \<noteq> Double (round_double (2997 / 100))
   \<and> map_sum id (map_prod length id)
       (prepare_video_sample_idx double_float 300 (Double (round_double (2997 / 100))) 0 (- 1)
          (- 1))
       = Inr (290, 29)
   \<and> float_of_int double_float 290
       \<noteq> (resolved_end_t double_float 300 (Double (round_double (2997 / 100))) (- 1) - 0)
           * float_of_int double_float
               (resolved_output_fps double_float (Double (round_double (2997 / 100))) (- 1))"
proof -
  define fps where "fps = Double (1054475631502295 / 35184372088832)"
  define E where "E = Double (2817567334441001 / 281474976710656)"
  have fps: "Double (round_double (2997 / 100)) = fps"
    unfolding fps_def by code_simp
  have F: "resolved_output_fps double_float fps (- 1) = 29"
    unfolding fps_def by code_simp
  have ne: "float_of_int double_float 29 \<noteq> fps"
    unfolding fps_def by code_simp
  have E: "resolved_end_t double_float 300 fps (- 1) = E"
    unfolding fps_def E_def by code_simp
  have num: "int_of_float double_float ((E - 0) * float_of_int double_float 29) = 290"
    unfolding E_def by code_simp
  have prod: "float_of_int double_float 290 \<noteq> (E - 0) * float_of_int double_float 29"
    unfolding E_def by code_simp
  have c: "fps \<noteq> 0" "(0 :: double) \<le> 0" "0 < E"
    unfolding fps_def E_def by code_simp+
  have "0 < resolved_output_fps double_float fps (- 1)" by (simp add: F)
  from prepare_video_double(1) [OF c(1,2) c(3) [folded E] this]
  have "map_sum id (map_prod length id)
          (prepare_video_sample_idx double_float 300 fps 0 (- 1) (- 1)) = Inr (290, 29)"
    unfolding F E num by simp
  with F ne prod show ?thesis
    unfolding fps F E by simp
qed

text \<open>
  C7 (amended): in the double arithmetic of the program (finite doubles, no
  intermediate result beyond the range of the normal doubles), \<open>prepare_video\<close>
  resolves \<open>output_fps\<close> to the integer part of the source frame rate, \<open>int(fps)\<close>, when
  passed -1 and \<open>end_t\<close> to the full duration \<open>len(vr) / fps\<close> when passed -1
  (otherwise to the smaller of the duration and \<open>end_t\<close>). A source frame rate of
  zero raises \<open>ZeroDivisionError\<close>; otherwise the call fails with an assertion
  error whenever the resolved values violate \<open>0 <= start_t < end_t\<close> or
  \<open>output_fps > 0\<close>, and else it returns the resolved \<open>output_fps\<close> with exactly
  \<open>int((end_t - start_t) * output_fps)\<close> frame indices, the product taken in
  floats: index \<open>i\<close> is \<open>int(i * step + start_f_ind)\<close> with
  \<open>step = (end_f_ind - start_f_ind) / count\<close>, \<open>start_f_ind = int(start_t * fps)\<close>
  and \<open>end_f_ind = int(end_t * fps)\<close>, where \<open>0 <= start_f_ind <= end_f_ind\<close>. When
  \<open>end_f_ind\<close> and the count are at most \<open>2^26\<close>, the first index is
  \<open>start_f_ind\<close> and every index is from \<open>start_f_ind\<close> on and below \<open>end_f_ind\<close>
  (equal to it only when the two bounds coincide).
\<close>

theorem prepare_video_sampling:
  fixes initial_fps start_t end_t :: double and output_fps :: int and n_frames :: nat
  shows
    "(let fps_out = resolved_output_fps double_float initial_fps output_fps;
          duration = float_of_int double_float (int n_frames) / initial_fps;
          end_r = resolved_end_t double_float n_frames initial_fps end_t;
          start_f_ind = int_of_float double_float (start_t * initial_fps);
          end_f_ind = int_of_float double_float (end_r * initial_fps);
          num_f = int_of_float double_float
                    ((end_r - start_t) * float_of_int double_float fps_out);
          step = (float_of_int double_float end_f_ind - float_of_int double_float start_f_ind)
                 / float_of_int double_float num_f;
          result = prepare_video_sample_idx double_float n_frames initial_fps start_t end_t
                     output_fps
      in fps_out = (if output_fps = - 1 then trunc (to_rat initial_fps) else output_fps)
       \<and> to_rat end_r = (if end_t = - 1 then to_rat duration else min (to_rat duration) (to_rat end_t))
       \<and> (if initial_fps = 0 then result = Inl ZeroDivisionError
          else if 0 \<le> start_t \<and> start_t < end_r \<and> 0 < fps_out
          then \<exists>sample_idx.
                 result = Inr (sample_idx, fps_out)
                 \<and> 0 \<le> num_f \<and> int (length sample_idx) = num_f
                 \<and> sample_idx
                     = map (\<lambda>i. int_of_float double_float
                                   (float_of_int double_float i * step
                                    + float_of_int double_float start_f_ind))
                         [0..num_f - 1]
                 \<and> 0 \<le> start_f_ind \<and> start_f_ind \<le> end_f_ind
                 \<and> (end_f_ind \<le> 2 ^ 26 \<and> num_f \<le> 2 ^ 26 \<longrightarrow>
                      list_all (\<lambda>k. start_f_ind \<le> k \<and> k \<le> end_f_ind
                                      \<and> (k < end_f_ind \<or> start_f_ind = end_f_ind)) sample_idx
                      \<and> (sample_idx \<noteq> [] \<longrightarrow> hd sample_idx = start_f_ind))
          else result = Inl AssertionError))"
proof -
  define fps_out where "fps_out = resolved_output_fps double_float initial_fps output_fps"
  define duration where "duration = float_of_int double_float (int n_frames) / initial_fps"
  define end_r where "end_r = resolved_end_t double_float n_frames initial_fps end_t"
  define sf where "sf = int_of_float double_float (start_t * initial_fps)"
  define ef where "ef = int_of_float double_float (end_r * initial_fps)"
  define num where
    "num = int_of_float double_float ((end_r - start_t) * float_of_int double_float fps_out)"
  define step where
    "step = (float_of_int double_float ef - float_of_int double_float sf)
            / float_of_int double_float num"
  define result where
    "result = prepare_video_sample_idx double_float n_frames initial_fps start_t end_t output_fps"
  let ?f = "\<lambda>i. int_of_float double_float
                   (float_of_int double_float i * step + float_of_int double_float sf)"
  have fps: "fps_out = (if output_fps = - 1 then trunc (to_rat initial_fps) else output_fps)"
    by (simp add: fps_out_def resolved_output_fps_def double_arith)
  have endr: "to_rat end_r = (if end_t = - 1 then to_rat duration else min (to_rat duration) (to_rat end_t))"
    unfolding end_r_def resolved_end_t_double by (simp add: duration_def double_arith)
  have zero: "result = Inl ZeroDivisionError" if "initial_fps = 0"
    using that by (simp add: result_def prepare_video_sample_idx_def Let_def)
  have bad: "result = Inl AssertionError"
    if "initial_fps \<noteq> 0" and "\<not> (0 \<le> start_t \<and> start_t < end_r \<and> 0 < fps_out)"
    unfolding result_def using prepare_video_rejects [OF that(1)] that(2)
    unfolding end_r_def fps_out_def by blast
  have good: "\<exists>sample_idx.
                 result = Inr (sample_idx, fps_out)
                 \<and> 0 \<le> num \<and> int (length sample_idx) = num
                 \<and> sample_idx = map ?f [0..num - 1]
                 \<and> 0 \<le> sf \<and> sf \<le> ef
                 \<and> (ef \<le> 2 ^ 26 \<and> num \<le> 2 ^ 26 \<longrightarrow>
                      list_all (\<lambda>k. sf \<le> k \<and> k \<le> ef \<and> (k < ef \<or> sf = ef)) sample_idx
                      \<and> (sample_idx \<noteq> [] \<longrightarrow> hd sample_idx = sf))"
    if nz: "initial_fps \<noteq> 0" and ok: "0 \<le> start_t \<and> start_t < end_r \<and> 0 < fps_out"
  proof -
    from ok have a: "0 \<le> start_t" and b: "start_t < end_r" and c: "0 < fps_out"
      by simp_all
    note raw = prepare_video_double [OF nz a b [unfolded end_r_def] c [unfolded fps_out_def]]
    have ex1: "result = Inr (map ?f [0..num - 1], fps_out)"
      using raw(1) by (simp only: result_def sf_def ef_def num_def end_r_def fps_out_def step_def)
    have ex2: "0 \<le> sf"
      using raw(2) by (simp only: sf_def)
    have ex3: "sf \<le> ef"
      using raw(3) by (simp only: sf_def ef_def end_r_def)
    have ex4: "0 \<le> num"
      using raw(4) by (simp only: num_def end_r_def fps_out_def)
    have len: "int (length (map ?f [0..num - 1])) = num"
      using ex4 by simp
    have rng: "list_all (\<lambda>k. sf \<le> k \<and> k \<le> ef \<and> (k < ef \<or> sf = ef)) (map ?f [0..num - 1])"
      if bnd: "ef \<le> 2 ^ 26" "num \<le> 2 ^ 26"
      unfolding list_all_iff
    proof
      fix k assume "k \<in> set (map ?f [0..num - 1])"
      then obtain i where i: "0 \<le> i" "i < num" and k: "k = ?f i"
        by auto
      from sample_in_range_double(1-3) [OF ex2 ex3 bnd(1) i bnd(2)] ex3
      show "sf \<le> k \<and> k \<le> ef \<and> (k < ef \<or> sf = ef)"
        unfolding k step_def by linarith
    qed
    have first: "hd (map ?f [0..num - 1]) = sf"
      if bnd: "ef \<le> 2 ^ 26" "num \<le> 2 ^ 26" and ne: "map ?f [0..num - 1] \<noteq> []"
    proof -
      from ne have pos: "0 < num" by simp
      then have "[0..num - 1] = 0 # [0 + 1..num - 1]" by (intro upto_rec1) simp
      then have "hd (map ?f [0..num - 1]) = ?f 0" by simp
      also have "\<dots> = sf"
        unfolding step_def
        by (rule sample_in_range_double(4) [OF ex2 ex3 bnd(1) order_refl pos bnd(2) refl])
      finally show ?thesis .
    qed
    from ex1 ex2 ex3 ex4 len rng first show ?thesis
      by blast
  qed
  from fps endr zero bad good show ?thesis
    unfolding Let_def fps_out_def [symmetric] duration_def [symmetric] end_r_def [symmetric]
      sf_def [symmetric] ef_def [symmetric] num_def [symmetric] step_def [symmetric]
      result_def [symmetric]
    by (cases "initial_fps = 0"; cases "0 \<le> start_t \<and> start_t < end_r \<and> 0 < fps_out") simp_all
qed

theorem prepare_video_sampling_witness:
  "prepare_video_sample_idx double_float 29 (Double 25) 0 (- 1) (- 1)
     = Inr ([0, 1, 2, 3, 4, 5, 6, 7, 8, 9, 10, 11, 12, 13, 14, 15, 16, 17, 18, 19, 20, 21, 22,
             23, 24, 25, 26, 27], 25)
   \<and> prepare_video_sample_idx double_float 40 (Double 4) (Double 5) (Double 2) (- 1)
     = Inl AssertionError"
proof -
  define E where "E = Double (5224175567749775 / 4503599627370496)"
  have F: "resolved_output_fps double_float (Double 25) (- 1) = 25"
    by code_simp
  have E: "resolved_end_t double_float 29 (Double 25) (- 1) = E"
    unfolding E_def by code_simp
  have sf: "int_of_float double_float (0 * Double 25) = 0"
    by code_simp
  have ef: "int_of_float double_float (E * Double 25) = 28"
    unfolding E_def by code_simp
  have num: "int_of_float double_float ((E - 0) * float_of_int double_float 25) = 28"
    unfolding E_def by code_simp
  have step: "(float_of_int double_float 28 - float_of_int double_float 0)
              / float_of_int double_float 28 = Double 1"
    by code_simp
  have c: "Double 25 \<noteq> 0" "(0 :: double) \<le> 0" "0 < E"
    unfolding E_def by code_simp+
  have r: "round_double 2 = 2" "round_double 3 = 3" "round_double 4 = 4" "round_double 5 = 5"
    "round_double 6 = 6" "round_double 7 = 7" "round_double 8 = 8" "round_double 9 = 9"
    "round_double 10 = 10" "round_double 11 = 11" "round_double 12 = 12" "round_double 13 = 13"
    "round_double 14 = 14" "round_double 15 = 15" "round_double 16 = 16" "round_double 17 = 17"
    "round_double 18 = 18" "round_double 19 = 19" "round_double 20 = 20" "round_double 21 = 21"
    "round_double 22 = 22" "round_double 23 = 23" "round_double 24 = 24" "round_double 25 = 25"
    "round_double 26 = 26" "round_double 27 = 27"
    by (simp_all add: round_double_numeral)
  have xs: "map (\<lambda>i. int_of_float double_float
                         (float_of_int double_float i * Double 1 + float_of_int double_float 0))
              [0..28 - 1]
            = [0, 1, 2, 3, 4, 5, 6, 7, 8, 9, 10, 11, 12, 13, 14, 15, 16, 17, 18, 19, 20, 21, 22,
               23, 24, 25, 26, 27]"
    by (simp add: upto_rec1 double_arith r round_double_zero round_double_one trunc_def)
  from prepare_video_sampling [of "Double 25" "- 1" 29 "- 1" 0]
  have "\<exists>sample_idx.
          prepare_video_sample_idx double_float 29 (Double 25) 0 (- 1) (- 1) = Inr (sample_idx, 25)
          \<and> sample_idx
              = map (\<lambda>i. int_of_float double_float
                            (float_of_int double_float i * Double 1 + float_of_int double_float 0))
                  [0..28 - 1]"
    unfolding Let_def F E sf ef num step using c by simp
  then have first: "prepare_video_sample_idx double_float 29 (Double 25) 0 (- 1) (- 1)
     = Inr ([0, 1, 2, 3, 4, 5, 6, 7, 8, 9, 10, 11, 12, 13, 14, 15, 16, 17, 18, 19, 20, 21, 22,
             23, 24, 25, 26, 27], 25)"
    unfolding xs by simp
  have E2: "resolved_end_t double_float 40 (Double 4) (Double 2) = Double 2"
    by code_simp
  have F2: "resolved_output_fps double_float (Double 4) (- 1) = 4"
    by code_simp
  have c2: "Double 4 \<noteq> 0" "\<not> Double 5 < Double 2"
    by code_simp+
  from prepare_video_sampling [of "Double 4" "- 1" 40 "Double 2" "Double 5"]
  have "prepare_video_sample_idx double_float 40 (Double 4) (Double 5) (Double 2) (- 1)
     = Inl AssertionError"
    unfolding Let_def F2 E2 using c2 by simp
  with first show ?thesis
    by simp
qed

subsection \<open>The safety check of \<open>__call__\<close>\<close>



end
